theory Spec2Isabelle
  imports Complex_Main "HOL-Library.Word"
begin

unbundle bit_operations_syntax

section \<open>Data model\<close>

text \<open>
  The sketch keeps its state in globals: the ring of captured words
  \<^verbatim>\<open>volatile uint32_t read_buffer[BUFFER_SIZE]\<close>, the ring cursor
  \<^verbatim>\<open>volatile uint8_t buffer_idx\<close>, the bit position \<^verbatim>\<open>volatile uint8_t read_digit\<close>
  and the sixteen digit slots \<^verbatim>\<open>uint32_t data_buffer[16]\<close>.  Arrays are lists whose
  length is the declared size; every access checks the index and an access
  outside the array is the error value \<open>OutOfBounds\<close>.  The repository holds the
  sketch twice; the two copies differ in the names of the tables, of the
  interrupt handlers and of the slot index only, and the names here are those
  of the commented copy.
\<close>

type_synonym u8 = "8 word"
type_synonym u32 = "32 word"

datatype error = OutOfBounds | NegativeShift

definition BUFFER_SIZE :: nat where
  "BUFFER_SIZE = 32"

definition data_digit_lut_1 :: "u8 list list" where
  "data_digit_lut_1 = [[0, 1, 2, 3, 4, 5, 6, 7, 8, 9],
                       [117, 5, 83, 23, 39, 54, 118, 21, 119, 55]]"

definition data_digit_lut_2 :: "u8 list list" where
  "data_digit_lut_2 = [[0, 1, 2, 3, 4, 5, 6, 7, 8, 9],
                       [125, 5, 94, 79, 39, 107, 123, 69, 127, 111]]"

section \<open>Bit sampler\<close>

record sampler =
  read_buffer :: "u32 list"
  buffer_idx :: u8
  read_digit :: u8
  clk_attached :: bool

text \<open>
  \<^verbatim>\<open>clock_isr\<close>: \<^verbatim>\<open>read_buffer[buffer_idx] |= (digitalRead(DATA_PIN) << (16-read_digit)); read_digit++;\<close>
  The level read from the data pin is the argument \<open>level\<close> (\<open>digitalRead\<close> yields
  1 or 0).  The shift count \<open>16 - read_digit\<close> is a C \<open>int\<close>; once \<open>read_digit\<close>
  exceeds 16 it is negative, which C leaves undefined: the error \<open>NegativeShift\<close>.
\<close>

definition clock_isr :: "bool \<Rightarrow> sampler \<Rightarrow> error + sampler" where
  "clock_isr level s =
     (if 16 < unat (read_digit s) then Inl NegativeShift
      else if \<not> unat (buffer_idx s) < length (read_buffer s) then Inl OutOfBounds
      else Inr (s\<lparr>read_buffer := (read_buffer s)[unat (buffer_idx s) :=
                       (read_buffer s ! unat (buffer_idx s))
                         OR push_bit (16 - unat (read_digit s)) (of_bool level)],
                  read_digit := read_digit s + 1\<rparr>))"

text \<open>
  \<^verbatim>\<open>select_isr\<close>: the level of the chip-select pin is the argument \<open>cs\<close>.  Low starts
  a word (position 0, slot cleared, clock handler attached); high detaches the
  clock handler and advances the cursor modulo \<open>BUFFER_SIZE\<close>.
\<close>

definition select_isr :: "bool \<Rightarrow> sampler \<Rightarrow> error + sampler" where
  "select_isr cs s =
     (if \<not> cs then
        (if \<not> unat (buffer_idx s) < length (read_buffer s) then Inl OutOfBounds
         else Inr (s\<lparr>read_digit := 0,
                     read_buffer := (read_buffer s)[unat (buffer_idx s) := 0],
                     clk_attached := True\<rparr>))
      else
        (let b = buffer_idx s + 1
         in Inr (s\<lparr>clk_attached := False,
                   buffer_idx := (if BUFFER_SIZE \<le> unat b then 0 else b)\<rparr>)))"

text \<open>
  A rising clock edge runs \<open>clock_isr\<close> only while the handler is attached
  (\<^verbatim>\<open>attachInterrupt(CLK_PIN, clock_isr, RISING)\<close> / \<^verbatim>\<open>detachInterrupt(CLK_PIN)\<close>).
\<close>

definition clock_rising :: "bool \<Rightarrow> sampler \<Rightarrow> error + sampler" where
  "clock_rising level s = (if clk_attached s then clock_isr level s else Inr s)"

fun clock_edges :: "bool list \<Rightarrow> sampler \<Rightarrow> error + sampler" where
  "clock_edges [] s = Inr s"
| "clock_edges (b # bs) s =
     (case clock_rising b s of Inl e \<Rightarrow> Inl e | Inr s' \<Rightarrow> clock_edges bs s')"

text \<open>
  One chip-select-asserted interval: the falling edge of chip-select, then the
  rising clock edges with the data levels \<open>bs\<close>, first edge first.
\<close>

definition cs_low_interval :: "bool list \<Rightarrow> sampler \<Rightarrow> error + sampler" where
  "cs_low_interval bs s =
     (case select_isr False s of Inl e \<Rightarrow> Inl e | Inr s' \<Rightarrow> clock_edges bs s')"

section \<open>Packet validator\<close>

text \<open>
  The locals of \<^verbatim>\<open>process_data_buffer\<close> that live across iterations, with the
  global \<open>data_buffer\<close>.  \<open>writes\<close> is a log of the stores into \<open>data_buffer\<close>
  (index and value, oldest first); the source has no such variable, it records
  the effect the claims about writes speak of.
\<close>

record scan_state =
  expected_addr :: u32
  data_start :: bool
  data_idx :: u8
  success :: bool
  data_buffer :: "u32 list"
  writes :: "(nat \<times> u32) list"

datatype ctl = Next | Brk

definition pkt_cmd :: "u32 \<Rightarrow> u32" where
  "pkt_cmd w = drop_bit 14 (w AND 0x0001C000)"

definition pkt_addr :: "u32 \<Rightarrow> u32" where
  "pkt_addr w = drop_bit 8 (w AND 0x00003F00)"

text \<open>The body of the \<^verbatim>\<open>for\<close> loop on the word \<open>w = read_buffer[i]\<close>.\<close>

definition loop_body :: "u32 \<Rightarrow> scan_state \<Rightarrow> error + (ctl \<times> scan_state)" where
  "loop_body w s =
     (if pkt_cmd w = 5 then
        (let addr = pkt_addr w;
             s1 = (if addr = 0 then s\<lparr>data_start := True\<rparr> else s)
         in if data_start s1 then
              (if addr \<noteq> expected_addr s1 then Inr (Brk, s1\<lparr>success := False\<rparr>)
               else
                 (let s2 = s1\<lparr>expected_addr := expected_addr s1 + 2\<rparr>;
                      v = (if addr \<le> 14 then w AND 0x00000077 else w AND 0x000000FF);
                      k = unat (data_idx s2)
                  in if \<not> k < length (data_buffer s2) then Inl OutOfBounds
                     else
                       (let s3 = s2\<lparr>data_buffer := (data_buffer s2)[k := v],
                                     writes := writes s2 @ [(k, v)],
                                     data_idx := data_idx s2 + 1\<rparr>
                        in if addr = 30 then Inr (Brk, s3\<lparr>success := True\<rparr>)
                           else Inr (Next, s3))))
            else Inr (Next, s1))
      else Inr (Next, s))"

text \<open>
  \<^verbatim>\<open>for (int i = 0; i < BUFFER_SIZE; i++)\<close>, from index \<open>i\<close>.  The result carries the
  value of \<open>i\<close> on leaving the loop: the index of the \<^verbatim>\<open>break\<close>, or \<open>BUFFER_SIZE\<close>.
\<close>

function scan_from :: "u32 list \<Rightarrow> nat \<Rightarrow> scan_state \<Rightarrow> error + (nat \<times> scan_state)" where
  "scan_from rb i s =
     (if i < BUFFER_SIZE then
        (if \<not> i < length rb then Inl OutOfBounds
         else case loop_body (rb ! i) s of
                Inl e \<Rightarrow> Inl e
              | Inr (Brk, s') \<Rightarrow> Inr (i, s')
              | Inr (Next, s') \<Rightarrow> scan_from rb (i + 1) s')
      else Inr (i, s))"
  by pat_completeness auto
termination
  by (relation "measure (\<lambda>(rb, i, s). BUFFER_SIZE - i)") auto

definition scan_init :: "u32 list \<Rightarrow> scan_state" where
  "scan_init db = \<lparr>expected_addr = 0, data_start = False, data_idx = 0,
                   success = False, data_buffer = db, writes = []\<rparr>"

definition process_scan :: "u32 list \<Rightarrow> u32 list \<Rightarrow> error + (nat \<times> scan_state)" where
  "process_scan rb db = scan_from rb 0 (scan_init db)"

text \<open>
  \<^verbatim>\<open>process_data_buffer\<close> on the ring \<open>rb\<close> and the digit slots \<open>db\<close>: the returned
  flag and the digit slots afterwards.
\<close>

definition process_data_buffer :: "u32 list \<Rightarrow> u32 list \<Rightarrow> error + (bool \<times> u32 list)" where
  "process_data_buffer rb db =
     (case process_scan rb db of
        Inl e \<Rightarrow> Inl e
      | Inr (i, s) \<Rightarrow> Inr (success s, data_buffer s))"

text \<open>The last slot the scan looked at.\<close>

definition last_examined :: "nat \<Rightarrow> nat" where
  "last_examined i = min i (BUFFER_SIZE - 1)"

section \<open>Digit decoder\<close>

text \<open>
  The inner loop \<^verbatim>\<open>for(int j=0; j<10; j++) if (x == lut[1][j]) acc += lut[0][j] * pow(10, p);\<close>
  The table entries are promoted from \<open>uint8_t\<close>; \<open>pow(10, p)\<close> is taken to be the
  exact power of ten for the exponents 0 to 3 that occur, so that the sum is the
  exact integer and its conversion back to \<open>uint32_t\<close> loses nothing.
\<close>

definition lut_loop :: "u8 list list \<Rightarrow> u32 \<Rightarrow> nat \<Rightarrow> u32 \<Rightarrow> u32" where
  "lut_loop lut x p acc =
     foldl (\<lambda>a j. if x = ucast (lut ! 1 ! j) then a + ucast (lut ! 0 ! j) * 10 ^ p else a)
       acc [0..<10]"

definition voltage_acc :: "u32 list \<Rightarrow> u32" where
  "voltage_acc db = foldl (\<lambda>a i. lut_loop data_digit_lut_1 (db ! i) (3 - i) a) 0 [0..<4]"

definition current_acc :: "u32 list \<Rightarrow> u32" where
  "current_acc db = foldl (\<lambda>a i. lut_loop data_digit_lut_1 (db ! i) (7 - i) a) 0 [4..<8]"

definition power_acc :: "u32 list \<Rightarrow> u32" where
  "power_acc db =
     foldl (\<lambda>a i. lut_loop data_digit_lut_2 (drop_bit 1 (db ! i)) (11 - i) a) 0 [8..<12]"

definition energy_acc :: "u32 list \<Rightarrow> u32" where
  "energy_acc db =
     foldl (\<lambda>a i. lut_loop data_digit_lut_2 (drop_bit 1 (db ! i)) (15 - i) a) 0 [12..<16]"

text \<open>
  The value of a C \<open>float\<close> or \<open>double\<close> is a rational; a result that is not
  representable is rounded to the nearest representable value, ties to the even
  significand (the IEEE 754 default).  \<open>round_to p\<close> rounds to \<open>p\<close> significant
  bits: \<open>ilog2 q\<close> is the exponent \<open>e\<close> with \<open>2^e \<le> q < 2^(e+1)\<close>, the spacing of
  the representable values around \<open>q\<close> is \<open>2^(e - p + 1)\<close>, and \<open>rne\<close> rounds the
  quotient by that spacing to the nearest integer, a tie to the even one.  The
  exponent range of the formats is not modelled: the values rounded here are 0
  or lie between 1/100 and 2^32, far inside the normal range of both formats.
\<close>

definition rne :: "rat \<Rightarrow> int" where
  "rne x = (let f = \<lfloor>x\<rfloor>; r = x - of_int f
            in if r < 1 / 2 then f else if 1 / 2 < r then f + 1
               else if even f then f else f + 1)"

text \<open>The number of binary digits of a positive integer.\<close>

function bits :: "int \<Rightarrow> nat" where
  "bits n = (if n \<le> 0 then 0 else Suc (bits (n div 2)))"
  by pat_completeness auto
termination
  by (relation "measure nat") auto

definition ilog2 :: "rat \<Rightarrow> int" where
  "ilog2 q = (let (a, b) = quotient_of q;
                  d = int (bits a) - int (bits b)
              in if 2 powi d \<le> q then d else d - 1)"

definition round_to :: "nat \<Rightarrow> rat \<Rightarrow> rat" where
  "round_to p q =
     (if q = 0 then 0
      else (let u = 2 powi (ilog2 \<bar>q\<bar> - int p + 1)
            in sgn q * of_int (rne (\<bar>q\<bar> / u)) * u))"

definition to_double :: "rat \<Rightarrow> rat" where
  "to_double = round_to 53"

definition to_float :: "rat \<Rightarrow> rat" where
  "to_float = round_to 24"

text \<open>
  The accessors.  Each runs \<open>process_data_buffer\<close> first and returns its value
  with the digit slots as the call leaves them.  A \<open>float\<close> result is the
  rational it denotes.  In \<^verbatim>\<open>voltage / 100.0\<close> the \<open>uint32_t\<close> converts to \<open>double\<close>
  without loss, the division rounds to \<open>double\<close> and the assignment to the
  \<open>float\<close> variable rounds again.  In \<^verbatim>\<open>(float)power / 10.0\<close> the cast rounds to
  \<open>float\<close>, the division is done in \<open>double\<close> and the assignment rounds to
  \<open>float\<close>.  The sentinel \<open>-1.0\<close> is representable.  \<open>get_energy\<close> returns the
  \<open>uint32_t\<close> accumulator as \<open>int32_t\<close>, read with \<open>sint\<close>.
\<close>

definition get_voltage :: "u32 list \<Rightarrow> u32 list \<Rightarrow> error + (rat \<times> u32 list)" where
  "get_voltage rb db =
     (case process_data_buffer rb db of
        Inl e \<Rightarrow> Inl e
      | Inr (ok, db') \<Rightarrow>
          if \<not> ok then Inr (- 1, db')
          else Inr (to_float (to_double (of_nat (unat (voltage_acc db')) / 100)), db'))"

definition get_current :: "u32 list \<Rightarrow> u32 list \<Rightarrow> error + (rat \<times> u32 list)" where
  "get_current rb db =
     (case process_data_buffer rb db of
        Inl e \<Rightarrow> Inl e
      | Inr (ok, db') \<Rightarrow>
          if \<not> ok then Inr (- 1, db')
          else Inr (to_float (to_double (of_nat (unat (current_acc db')) / 100)), db'))"

definition get_power :: "u32 list \<Rightarrow> u32 list \<Rightarrow> error + (rat \<times> u32 list)" where
  "get_power rb db =
     (case process_data_buffer rb db of
        Inl e \<Rightarrow> Inl e
      | Inr (ok, db') \<Rightarrow>
          if \<not> ok then Inr (- 1, db')
          else (let power_f = to_float (of_nat (unat (power_acc db')))
                in if (db' ! 10) AND 0x01 \<noteq> 0
                   then Inr (to_float (to_double (power_f / 10)), db')
                   else Inr (power_f, db')))"

definition get_energy :: "u32 list \<Rightarrow> u32 list \<Rightarrow> error + (int \<times> u32 list)" where
  "get_energy rb db =
     (case process_data_buffer rb db of
        Inl e \<Rightarrow> Inl e
      | Inr (ok, db') \<Rightarrow>
          if \<not> ok then Inr (- 1, db')
          else (let energy = energy_acc db';
                    energy' = (if (db' ! 15) AND 0x01 \<noteq> 0 then energy * 1000 else energy)
                in Inr (sint energy', db')))"

section \<open>Auxiliary definitions for the proofs\<close>

text \<open>
  The loop invariant of the scan while no \<^verbatim>\<open>break\<close> has happened: \<open>data_idx\<close> packets
  were accepted, the next expected address is twice that count, and the stores
  so far went to the slots \<open>0, 1, ...\<close> in this order.
\<close>

definition scan_inv :: "scan_state \<Rightarrow> bool" where
  "scan_inv s \<longleftrightarrow>
     unat (data_idx s) \<le> 15 \<and> unat (expected_addr s) = 2 * unat (data_idx s) \<and>
     length (data_buffer s) = 16 \<and> map fst (writes s) = [0..<unat (data_idx s)] \<and>
     \<not> success s"

text \<open>What holds of the state when the loop is left.\<close>

definition scan_post :: "scan_state \<Rightarrow> bool" where
  "scan_post s \<longleftrightarrow>
     length (data_buffer s) = 16 \<and> length (writes s) \<le> 16 \<and>
     map fst (writes s) = [0..<length (writes s)] \<and>
     (success s \<longleftrightarrow> length (writes s) = 16)"

text \<open>
  The digit a slot value stands for in each table, 0 when the value is in
  neither row: the sum of what the ten iterations of \<open>lut_loop\<close> add.
\<close>

definition digit_1 :: "u32 \<Rightarrow> nat" where
  "digit_1 x = (if x = 117 then 0 else if x = 5 then 1 else if x = 83 then 2
     else if x = 23 then 3 else if x = 39 then 4 else if x = 54 then 5
     else if x = 118 then 6 else if x = 21 then 7 else if x = 119 then 8
     else if x = 55 then 9 else 0)"

definition digit_2 :: "u32 \<Rightarrow> nat" where
  "digit_2 x = (if x = 125 then 0 else if x = 5 then 1 else if x = 94 then 2
     else if x = 79 then 3 else if x = 39 then 4 else if x = 107 then 5
     else if x = 123 then 6 else if x = 69 then 7 else if x = 127 then 8
     else if x = 111 then 9 else 0)"

text \<open>
  A ring holding one full transmission in slots 0 to 15 (command 5, addresses
  0, 2, ..., 30) whose digits read 1205, 0123, 0456 with the decimal flag of
  slot 10 set, and 0789; the other slots are empty.
\<close>

definition capture_frame :: "u32 list" where
  "capture_frame =
     [0x14005, 0x14253, 0x14475, 0x14636, 0x14875, 0x14A05, 0x14C53, 0x14E17,
      0x150FA, 0x1524E, 0x154D7, 0x156F6, 0x158FA, 0x15A8A, 0x15CFE, 0x15EDE,
      0, 0, 0, 0, 0, 0, 0, 0, 0, 0, 0, 0, 0, 0, 0, 0]"

definition capture_slots :: "u32 list" where
  "capture_slots = [5, 83, 117, 54, 117, 5, 83, 23, 250, 78, 215, 246, 250, 138, 254, 222]"

definition zero_slots :: "u32 list" where
  "zero_slots = [0, 0, 0, 0, 0, 0, 0, 0, 0, 0, 0, 0, 0, 0, 0, 0]"

text \<open>
  A ring with a full transmission whose voltage slots hold the table patterns
  117, 5, 83, 23 and whose other slots hold 0; the capture above with the
  decimal flag of slot 10 cleared; the capture with the kilo flag of slot 15 set.
\<close>

definition table_frame :: "u32 list" where
  "table_frame =
     [0x14075, 0x14205, 0x14453, 0x14617, 0x14800, 0x14A00, 0x14C00, 0x14E00,
      0x15000, 0x15200, 0x15400, 0x15600, 0x15800, 0x15A00, 0x15C00, 0x15E00,
      0, 0, 0, 0, 0, 0, 0, 0, 0, 0, 0, 0, 0, 0, 0, 0]"

definition table_slots :: "u32 list" where
  "table_slots = [117, 5, 83, 23, 0, 0, 0, 0, 0, 0, 0, 0, 0, 0, 0, 0]"

definition nodp_frame :: "u32 list" where
  "nodp_frame = capture_frame[10 := 0x154D6]"

definition nodp_slots :: "u32 list" where
  "nodp_slots = capture_slots[10 := 214]"

definition kilo_frame :: "u32 list" where
  "kilo_frame = capture_frame[15 := 0x15EDF]"

definition kilo_slots :: "u32 list" where
  "kilo_slots = capture_slots[15 := 223]"

text \<open>
  The loop over a list of words instead of indices; \<open>scan_from\<close> on a full ring is
  \<open>scan_list\<close> on the rest of the ring (lemma \<open>scan_from_list\<close>).
\<close>

fun scan_list :: "u32 list \<Rightarrow> nat \<Rightarrow> scan_state \<Rightarrow> error + (nat \<times> scan_state)" where
  "scan_list [] i s = Inr (i, s)"
| "scan_list (w # ws) i s =
     (case loop_body w s of
        Inl e \<Rightarrow> Inl e
      | Inr (Brk, s') \<Rightarrow> Inr (i, s')
      | Inr (Next, s') \<Rightarrow> scan_list ws (i + 1) s')"

text \<open>The value stored for an accepted word, and the state after accepting it.\<close>

definition slot_value :: "u32 \<Rightarrow> u32" where
  "slot_value w = (if pkt_addr w \<le> 14 then w AND 0x77 else w AND 0xFF)"

definition accept :: "scan_state \<Rightarrow> u32 \<Rightarrow> scan_state" where
  "accept s w =
     s\<lparr>data_start := True, expected_addr := expected_addr s + 2,
       data_buffer := (data_buffer s)[unat (data_idx s) := slot_value w],
       writes := writes s @ [(unat (data_idx s), slot_value w)],
       data_idx := data_idx s + 1\<rparr>"

text \<open>The command-5 words in the slots \<open>lo\<close> to \<open>hi - 1\<close>, in slot order.\<close>

definition cmd5_between :: "u32 list \<Rightarrow> nat \<Rightarrow> nat \<Rightarrow> u32 list" where
  "cmd5_between rb lo hi = filter (\<lambda>w. pkt_cmd w = 5) (take (hi - lo) (drop lo rb))"

text \<open>Rings and scan states used as concrete inputs.\<close>

definition stale_frame :: "u32 list" where
  "stale_frame =
     [0x14000,
      0x14005, 0x14253, 0x14475, 0x14636, 0x14875, 0x14A05, 0x14C53, 0x14E17,
      0x150FA, 0x1524E, 0x154D7, 0x156F6, 0x158FA, 0x15A8A, 0x15CFE, 0x15EDE,
      0, 0, 0, 0, 0, 0, 0, 0, 0, 0, 0, 0, 0, 0, 0]"

definition wrapped_frame :: "u32 list" where
  "wrapped_frame =
     [0x15CFE, 0x15EDE, 0x10052,
      0x14005, 0x14253, 0, 0x14475, 0x14636, 0x14875, 0x14A05, 0x14C53, 0x14E17,
      0x150FA, 0x1524E, 0x154D7, 0x156F6, 0x158FA, 0x15A8A, 0x15CFE, 0x15EDE,
      0, 0, 0, 0, 0, 0, 0, 0, 0, 0, 0, 0]"

definition next_frame :: "u32 list" where
  "next_frame = capture_frame[16 := 0x14600]"

definition skip_frame :: "u32 list" where
  "skip_frame =
     [0x15EDE, 0x14005, 0x14253, 0x14636, 0x14875,
      0, 0, 0, 0, 0, 0, 0, 0, 0, 0, 0, 0, 0, 0, 0, 0, 0, 0, 0, 0, 0, 0, 0, 0, 0, 0, 0]"

definition skip_state :: scan_state where
  "skip_state = \<lparr>expected_addr = 4, data_start = True, data_idx = 2, success = False,
       data_buffer = [5, 83, 0, 0, 0, 0, 0, 0, 0, 0, 0, 0, 0, 0, 0, 0],
       writes = [(0, 5), (1, 83)]\<rparr>"

definition tail_frame :: "u32 list" where
  "tail_frame =
     [0x150FA, 0x1524E, 0x154D7, 0x156F6, 0x158FA, 0x15A8A, 0x15CFE, 0x15EDE,
      0, 0, 0, 0, 0, 0, 0, 0, 0, 0, 0, 0, 0, 0, 0, 0, 0, 0, 0, 0, 0, 0, 0, 0]"

definition capture_state :: scan_state where
  "capture_state = \<lparr>expected_addr = 32, data_start = True, data_idx = 16, success = True,
       data_buffer = capture_slots,
       writes = zip [0, 1, 2, 3, 4, 5, 6, 7, 8, 9, 10, 11, 12, 13, 14, 15] capture_slots\<rparr>"

text \<open>
  The word the spec describes for the bit sampler: the OR of each sampled level
  shifted left by 16 minus its position (\<open>or_shifted_from p\<close> numbers the levels
  from position \<open>p\<close>).
\<close>

primrec or_shifted_from :: "nat \<Rightarrow> bool list \<Rightarrow> u32" where
  "or_shifted_from p [] = 0"
| "or_shifted_from p (b # bs) = push_bit (16 - p) (of_bool b) OR or_shifted_from (Suc p) bs"

definition or_shifted :: "bool list \<Rightarrow> u32" where
  "or_shifted bs = or_shifted_from 0 bs"

definition idle_sampler :: sampler where
  "idle_sampler = \<lparr>read_buffer = [7, 0, 0, 0, 0, 0, 0, 0, 0, 0, 0, 0, 0, 0, 0, 0,
                                   0, 0, 0, 0, 0, 0, 0, 0, 0, 0, 0, 0, 0, 0, 0, 0],
                    buffer_idx = 0, read_digit = 9, clk_attached = False\<rparr>"

definition packet_bits :: "bool list" where
  "packet_bits = [True, False, True, False, False, False, False, False, False,
                  False, True, True, True, False, True, False, True]"

section \<open>The scan never leaves the sixteen slots\<close>

declare scan_from.simps [simp del]

lemma scan_inv_post: "scan_inv s \<Longrightarrow> scan_post s"
  by (auto simp: scan_inv_def scan_post_def dest: arg_cong [where f = length])

lemma scan_inv_init: "length db = 16 \<Longrightarrow> scan_inv (scan_init db)"
  by (simp add: scan_inv_def scan_init_def)

lemma unat_inc8: "unat (d :: u8) \<le> 15 \<Longrightarrow> unat (d + 1) = unat d + 1"
  by (simp add: unat_word_ariths)

lemma unat_add2: "unat (e :: u32) \<le> 30 \<Longrightarrow> unat (e + 2) = unat e + 2"
  by (simp add: unat_word_ariths)

lemma body_cases:
  assumes "scan_inv s"
  shows "(\<exists>s'. loop_body w s = Inr (Next, s') \<and> scan_inv s') \<or>
         (\<exists>s'. loop_body w s = Inr (Brk, s') \<and> scan_post s')"
proof -
  let ?n = "unat (data_idx s)"
  let ?v = "if pkt_addr w \<le> 14 then w AND 0x77 else w AND 0xFF"
  from assms have n: "?n \<le> 15" and e: "unat (expected_addr s) = 2 * ?n"
    and l: "length (data_buffer s) = 16" and w: "map fst (writes s) = [0..<?n]"
    and ns: "\<not> success s"
    by (simp_all add: scan_inv_def)
  have lw: "length (writes s) = ?n"
    using w by (auto dest: arg_cong [where f = length])
  show ?thesis
  proof (cases "pkt_cmd w = 5 \<and> (data_start s \<or> pkt_addr w = 0)")
    case False
    then have "loop_body w s = Inr (Next, s)"
      by (auto simp: loop_body_def Let_def)
    with assms show ?thesis by simp
  next
    case True
    show ?thesis
    proof (cases "pkt_addr w = expected_addr s")
      case False
      with True have "loop_body w s = Inr (Brk, s\<lparr>data_start := True, success := False\<rparr>)"
        by (auto simp: loop_body_def Let_def)
      moreover have "scan_post (s\<lparr>data_start := True, success := False\<rparr>)"
        using n l w lw by (simp add: scan_post_def)
      ultimately show ?thesis by simp
    next
      case eq: True
      show ?thesis
      proof (cases "pkt_addr w = 30")
        case a30: True
        with eq e have n15: "?n = 15" by simp
        define s' where "s' = s\<lparr>data_start := True, expected_addr := expected_addr s + 2,
            data_buffer := (data_buffer s)[?n := ?v], writes := writes s @ [(?n, ?v)],
            data_idx := data_idx s + 1, success := True\<rparr>"
        have "loop_body w s = Inr (Brk, s')"
          using True eq a30 n l by (auto simp: loop_body_def Let_def s'_def)
        moreover have "map fst (writes s') = [0..<length (writes s')]"
          using w lw by (simp add: s'_def)
        then have "scan_post s'"
          using n15 l lw by (simp add: scan_post_def s'_def)
        ultimately show ?thesis by blast
      next
        case a30: False
        with eq e have "?n \<noteq> 15"
          by (auto simp: word_eq_iff_unsigned [where ?'a = nat])
        with n have n14: "?n \<le> 14" by simp
        define s' where "s' = s\<lparr>data_start := True, expected_addr := expected_addr s + 2,
            data_buffer := (data_buffer s)[?n := ?v], writes := writes s @ [(?n, ?v)],
            data_idx := data_idx s + 1\<rparr>"
        have "loop_body w s = Inr (Next, s')"
          using True eq a30 n l by (auto simp: loop_body_def Let_def s'_def)
        moreover have "scan_inv s'"
          using n14 e l w lw ns by (simp add: scan_inv_def s'_def unat_inc8 unat_add2)
        ultimately show ?thesis by blast
      qed
    qed
  qed
qed

lemma scan_from_total:
  "length rb = BUFFER_SIZE \<Longrightarrow> scan_inv s \<Longrightarrow>
     \<exists>i' s'. scan_from rb i s = Inr (i', s') \<and> scan_post s'"
proof (induction rb i s rule: scan_from.induct)
  case (1 rb i s)
  note len = \<open>length rb = BUFFER_SIZE\<close> and inv = \<open>scan_inv s\<close>
  show ?case
  proof (cases "i < BUFFER_SIZE")
    case False
    then show ?thesis
      using inv by (simp add: scan_from.simps [of rb i s] scan_inv_post)
  next
    case True
    with len have il: "i < length rb" by simp
    from body_cases [OF inv, of "rb ! i"] show ?thesis
    proof
      assume "\<exists>s'. loop_body (rb ! i) s = Inr (Next, s') \<and> scan_inv s'"
      then obtain s' where b: "loop_body (rb ! i) s = Inr (Next, s')" and i: "scan_inv s'"
        by blast
      from "1.IH" [OF True _ b refl refl len i] il
      have "\<exists>i' s''. scan_from rb (i + 1) s' = Inr (i', s'') \<and> scan_post s''"
        by simp
      then show ?thesis
        using True il b by (simp add: scan_from.simps [of rb i s])
    next
      assume "\<exists>s'. loop_body (rb ! i) s = Inr (Brk, s') \<and> scan_post s'"
      then show ?thesis
        using True il by (auto simp: scan_from.simps [of rb i s])
    qed
  qed
qed

text \<open>
  C10.  For every content of the 32-word ring (and sixteen digit slots),
  \<open>process_data_buffer\<close> runs without an out-of-range access; each of its stores
  into \<open>data_buffer\<close> has an index below 16; there are at most sixteen stores,
  they go to the slots 0, 1, 2, ... in this order, and the sixteenth store is
  made exactly when the call succeeds (address 30 accepted).
\<close>

theorem C10_writes_in_bounds:
  assumes "length rb = BUFFER_SIZE" and "length db = 16"
  shows "\<exists>i s. process_scan rb db = Inr (i, s) \<and>
           process_data_buffer rb db = Inr (success s, data_buffer s) \<and>
           (\<forall>(k, v) \<in> set (writes s). k < 16) \<and>
           length (writes s) \<le> 16 \<and>
           map fst (writes s) = [0..<length (writes s)] \<and>
           (success s \<longleftrightarrow> length (writes s) = 16)"
proof -
  from scan_from_total [OF assms(1) scan_inv_init [OF assms(2)], of 0]
  obtain i s where r: "process_scan rb db = Inr (i, s)" and p: "scan_post s"
    by (auto simp: process_scan_def)
  from p have m: "map fst (writes s) = [0..<length (writes s)]"
    and l: "length (writes s) \<le> 16"
    by (simp_all add: scan_post_def)
  have "\<forall>(k, v) \<in> set (writes s). k < 16"
  proof (clarify)
    fix k v assume "(k, v) \<in> set (writes s)"
    then have "k \<in> set (map fst (writes s))" by force
    with m have "k < length (writes s)" by simp
    with l show "k < 16" by simp
  qed
  with r p show ?thesis
    by (simp add: process_data_buffer_def scan_post_def)
qed

lemma process_capture_frame:
  "process_scan capture_frame zero_slots =
     Inr (15, \<lparr>expected_addr = 32, data_start = True, data_idx = 16, success = True,
               data_buffer = capture_slots,
               writes = zip [0, 1, 2, 3, 4, 5, 6, 7, 8, 9, 10, 11, 12, 13, 14, 15] capture_slots\<rparr>)"
  by code_simp

theorem C10_writes_in_bounds_witness:
  "length capture_frame = BUFFER_SIZE \<and> length zero_slots = 16 \<and>
   (\<exists>i s. process_scan capture_frame zero_slots = Inr (i, s) \<and>
           process_data_buffer capture_frame zero_slots = Inr (success s, data_buffer s) \<and>
           (\<forall>(k, v) \<in> set (writes s). k < 16) \<and>
           length (writes s) \<le> 16 \<and>
           map fst (writes s) = [0..<length (writes s)] \<and>
           (success s \<longleftrightarrow> length (writes s) = 16))"
proof -
  have a: "length capture_frame = BUFFER_SIZE"
    by (simp add: capture_frame_def BUFFER_SIZE_def)
  have b: "length zero_slots = 16"
    by (simp add: zero_slots_def)
  from C10_writes_in_bounds [OF a b] a b show ?thesis by blast
qed

section \<open>Rounding to binary floating point\<close>

declare bits.simps [simp del]

lemma bits_pos: "0 < n \<Longrightarrow> bits n = Suc (bits (n div 2))"
  by (simp add: bits.simps [of n])

lemma bits_bounds: "0 < n \<Longrightarrow> 2 ^ (bits n - 1) \<le> n \<and> n < 2 ^ bits n"
proof (induction n rule: bits.induct)
  case (1 n)
  show ?case
  proof (cases "n = 1")
    case True
    then show ?thesis by (simp add: bits.simps [of 1] bits.simps [of 0])
  next
    case False
    with "1.prems" have h: "0 < n div 2" by simp
    from "1.prems" have np: "\<not> n \<le> 0" by simp
    from "1.IH" [OF np h] have ih: "2 ^ (bits (n div 2) - 1) \<le> n div 2" "n div 2 < 2 ^ bits (n div 2)"
      by simp_all
    from h have bp: "0 < bits (n div 2)" by (simp add: bits_pos)
    then obtain k where k: "bits (n div 2) = Suc k" by (cases "bits (n div 2)") simp_all
    from ih k have "2 * 2 ^ k \<le> 2 * (n div 2)" "2 * (n div 2) + 1 < 2 * 2 ^ Suc k" by simp_all
    then have "2 ^ Suc k \<le> n" "n < 2 ^ Suc (Suc k)" by simp_all
    then show ?thesis using "1.prems" k by (simp add: bits_pos)
  qed
qed

lemma rne_unique:
  assumes "\<bar>x - of_int m\<bar> < 1 / 2"
  shows "rne x = m"
proof (cases "of_int m \<le> x")
  case True
  with assms have "\<lfloor>x\<rfloor> = m" by (intro floor_unique) (simp_all add: abs_if split: if_splits)
  with assms True show ?thesis by (simp add: rne_def Let_def abs_if split: if_splits)
next
  case False
  with assms have f: "\<lfloor>x\<rfloor> = m - 1" by (intro floor_unique) (simp_all add: abs_if split: if_splits)
  with assms False show ?thesis by (auto simp: rne_def Let_def abs_if split: if_splits)
qed

lemma rne_le: "of_int (rne x) \<le> x + 1 / 2"
proof (cases "x - of_int \<lfloor>x\<rfloor> < 1 / 2")
  case True
  then have r: "rne x = \<lfloor>x\<rfloor>" by (simp add: rne_def Let_def)
  show ?thesis unfolding r using of_int_floor_le [of x] by linarith
next
  case False
  then have "rne x \<le> \<lfloor>x\<rfloor> + 1" by (simp add: rne_def Let_def)
  then have "(of_int (rne x) :: rat) \<le> of_int (\<lfloor>x\<rfloor> + 1)" by (simp only: of_int_le_iff)
  with False show ?thesis by simp
qed

lemma rne_nonneg: "0 \<le> x \<Longrightarrow> 0 \<le> rne x"
  by (auto simp: rne_def Let_def intro: order_trans)

lemma ilog2_bounds:
  assumes "0 < q"
  shows "2 powi (ilog2 q) \<le> q \<and> q < 2 powi (ilog2 q + 1)"
proof -
  obtain a b where ab: "quotient_of q = (a, b)" by (cases "quotient_of q")
  then have q: "q = of_int a / of_int b" by (rule quotient_of_div)
  from ab have b: "0 < b" by (rule quotient_of_denom_pos)
  with assms q have a: "0 < a" by (simp add: zero_less_divide_iff)
  let ?A = "bits a" and ?B = "bits b"
  let ?d = "int ?A - int ?B"
  from bits_bounds [OF a] have a1: "2 ^ (?A - 1) \<le> a" and a2: "a < 2 ^ ?A" by simp_all
  from bits_bounds [OF b] have b1: "2 ^ (?B - 1) \<le> b" and b2: "b < 2 ^ ?B" by simp_all
  have a1': "(2::rat) ^ (?A - 1) \<le> of_int a"
    using of_int_le_iff [of "2 ^ (?A - 1)" a, where ?'a = rat] a1 by simp
  have a2': "(of_int a :: rat) < 2 ^ ?A"
    using of_int_less_iff [of a "2 ^ ?A", where ?'a = rat] a2 by simp
  have b1': "(2::rat) ^ (?B - 1) \<le> of_int b"
    using of_int_le_iff [of "2 ^ (?B - 1)" b, where ?'a = rat] b1 by simp
  have b2': "(of_int b :: rat) \<le> 2 ^ ?B"
    using of_int_less_iff [of b "2 ^ ?B", where ?'a = rat] b2 by simp
  from a b have a': "(0::rat) < of_int a" and b': "(0::rat) < of_int b" by simp_all
  from a have Ap: "0 < ?A" by (simp add: bits_pos)
  from b have Bp: "0 < ?B" by (simp add: bits_pos)
  have lo: "(2::rat) powi (?d - 1) \<le> q"
  proof -
    have e1: "?d - 1 = int (?A - 1) - int ?B" using Ap by simp
    have "(2::rat) powi (?d - 1) = 2 powi (int (?A - 1) - int ?B)"
      by (simp only: e1)
    also have "\<dots> = 2 powi (int (?A - 1)) / 2 powi (int ?B)"
      by (rule power_int_diff) simp
    also have "\<dots> = 2 ^ (?A - 1) / 2 ^ ?B" by (simp only: power_int_of_nat)
    also have "\<dots> \<le> of_int a / 2 ^ ?B"
      using a1' by (intro divide_right_mono) simp_all
    also have "\<dots> \<le> of_int a / of_int b"
      using a' b' b2' by (intro divide_left_mono) simp_all
    finally show ?thesis by (simp add: q)
  qed
  have hi: "q < (2::rat) powi (?d + 1)"
  proof -
    have e2: "int ?A - int (?B - 1) = ?d + 1" using Bp by simp
    have "q = of_int a / of_int b" by (rule q)
    also have "\<dots> < 2 ^ ?A / of_int b"
      using a2' b' by (intro divide_strict_right_mono) simp_all
    also have "\<dots> \<le> 2 ^ ?A / 2 ^ (?B - 1)"
      using b' b1' by (intro divide_left_mono) simp_all
    also have "\<dots> = 2 powi (int ?A) / 2 powi (int (?B - 1))" by (simp only: power_int_of_nat)
    also have "\<dots> = (2::rat) powi (int ?A - int (?B - 1))"
      by (rule power_int_diff [symmetric]) simp
    also have "\<dots> = (2::rat) powi (?d + 1)" by (simp only: e2)
    finally show ?thesis .
  qed
  show ?thesis
    using lo hi by (auto simp: ilog2_def ab Let_def not_le)
qed

lemma ilog2_unique:
  assumes "0 < q" and "2 powi e \<le> q" and "q < 2 powi (e + 1)"
  shows "ilog2 q = e"
proof -
  from ilog2_bounds [OF assms(1)]
  have l: "2 powi (ilog2 q) \<le> q" and h: "q < 2 powi (ilog2 q + 1)" by simp_all
  have "(2::rat) powi e < 2 powi (ilog2 q + 1)" using assms(2) h by simp
  then have "e < ilog2 q + 1"
    by (metis power_int_increasing not_le one_le_numeral)
  moreover have "(2::rat) powi (ilog2 q) < 2 powi (e + 1)" using l assms(3) by simp
  then have "ilog2 q < e + 1"
    by (metis power_int_increasing not_le one_le_numeral)
  ultimately show ?thesis by simp
qed

lemma round_to_cert:
  assumes "0 < q" and "2 powi e \<le> q" and "q < 2 powi (e + 1)"
    and "\<bar>q / 2 powi (e - int p + 1) - of_int m\<bar> < 1 / 2"
  shows "round_to p q = of_int m * 2 powi (e - int p + 1)"
  using assms by (simp add: round_to_def ilog2_unique [OF assms(1-3)] rne_unique [OF assms(4)] Let_def)

lemma round_to_nonneg: "0 \<le> q \<Longrightarrow> 0 \<le> round_to p q"
  by (auto simp: round_to_def Let_def intro!: mult_nonneg_nonneg rne_nonneg divide_nonneg_nonneg)

lemma round_to_le:
  assumes "0 \<le> q"
  shows "round_to p q \<le> q + q / 2 ^ p"
proof (cases "q = 0")
  case True
  then show ?thesis by (simp add: round_to_def)
next
  case False
  with assms have q: "0 < q" by simp
  let ?e = "ilog2 q"
  let ?u = "(2::rat) powi (?e - int p + 1)"
  have u: "0 < ?u" by simp
  have "round_to p q = of_int (rne (q / ?u)) * ?u"
    using q by (simp add: round_to_def Let_def)
  also have "\<dots> \<le> (q / ?u + 1 / 2) * ?u"
    using u by (intro mult_right_mono rne_le) simp
  also have "\<dots> = q + ?u / 2"
    using u by (simp add: field_simps)
  also have "?u / 2 = 2 powi ?e / 2 ^ p"
    by (simp add: power_int_diff power_int_add field_simps)
  also have "\<dots> \<le> q / 2 ^ p"
    using ilog2_bounds [OF q] by (intro divide_right_mono) simp_all
  finally show ?thesis by simp
qed

lemma float_values:
  "to_float (to_double (123 / 100)) = 2579497 / 2097152"
  "to_float (to_double (241 / 20)) = 12635341 / 1048576"
  "to_float (to_double (228 / 5)) = 5976883 / 131072"
  "to_float (to_double (1023 / 100)) = 2681733 / 262144"
  "to_float 456 = 456"
proof -
  have "to_double (123 / 100) = of_int 5539427541665710 * 2 powi (0 - int 53 + 1)"
    unfolding to_double_def by (rule round_to_cert) (simp_all add: power_int_minus)
  then have d1: "to_double (123 / 100) = 2769713770832855 / 2251799813685248"
    by (simp add: power_int_minus)
  have "to_float (2769713770832855 / 2251799813685248) = of_int 10317988 * 2 powi (0 - int 24 + 1)"
    unfolding to_float_def by (rule round_to_cert) (simp_all add: power_int_minus)
  then show "to_float (to_double (123 / 100)) = 2579497 / 2097152"
    by (simp add: d1 power_int_minus)
  have "to_double (241 / 20) = of_int 6783546938726810 * 2 powi (3 - int 53 + 1)"
    unfolding to_double_def by (rule round_to_cert) (simp_all add: power_int_minus)
  then have d2: "to_double (241 / 20) = 3391773469363405 / 281474976710656"
    by (simp add: power_int_minus)
  have "to_float (3391773469363405 / 281474976710656) = of_int 12635341 * 2 powi (3 - int 24 + 1)"
    unfolding to_float_def by (rule round_to_cert) (simp_all add: power_int_minus)
  then show "to_float (to_double (241 / 20)) = 12635341 / 1048576"
    by (simp add: d2 power_int_minus)
  have "to_double (228 / 5) = of_int 6417629469002957 * 2 powi (5 - int 53 + 1)"
    unfolding to_double_def by (rule round_to_cert) (simp_all add: power_int_minus)
  then have d3: "to_double (228 / 5) = 6417629469002957 / 140737488355328"
    by (simp add: power_int_minus)
  have "to_float (6417629469002957 / 140737488355328) = of_int 11953766 * 2 powi (5 - int 24 + 1)"
    unfolding to_float_def by (rule round_to_cert) (simp_all add: power_int_minus)
  then show "to_float (to_double (228 / 5)) = 5976883 / 131072"
    by (simp add: d3 power_int_minus)
  have "to_double (1023 / 100) = of_int 5758978023500022 * 2 powi (3 - int 53 + 1)"
    unfolding to_double_def by (rule round_to_cert) (simp_all add: power_int_minus)
  then have d4: "to_double (1023 / 100) = 2879489011750011 / 281474976710656"
    by (simp add: power_int_minus)
  have "to_float (2879489011750011 / 281474976710656) = of_int 10726932 * 2 powi (3 - int 24 + 1)"
    unfolding to_float_def by (rule round_to_cert) (simp_all add: power_int_minus)
  then show "to_float (to_double (1023 / 100)) = 2681733 / 262144"
    by (simp add: d4 power_int_minus)
  have "to_float 456 = of_int 14942208 * 2 powi (8 - int 24 + 1)"
    unfolding to_float_def by (rule round_to_cert) (simp_all add: power_int_minus)
  then show "to_float 456 = 456"
    by (simp add: power_int_minus)
qed

lemma float_nonneg: "0 \<le> q \<Longrightarrow> 0 \<le> to_float q" "0 \<le> q \<Longrightarrow> 0 \<le> to_double q"
  by (simp_all add: to_float_def to_double_def round_to_nonneg)

text \<open>A quotient of at most 99.99 stays below 101 through both roundings.\<close>

lemma float_hundredths_bound:
  assumes "n \<le> 9999"
  shows "to_float (to_double (of_nat n / 100)) \<le> 101"
proof -
  let ?x = "of_nat n / 100 :: rat"
  from assms have "(of_nat n :: rat) \<le> of_nat 9999" by (simp only: of_nat_le_iff)
  then have x: "0 \<le> ?x" "?x \<le> 100" by simp_all
  have d0: "0 \<le> to_double ?x" using x(1) by (rule float_nonneg)
  have "to_double ?x \<le> ?x + ?x / 2 ^ 53"
    unfolding to_double_def using x(1) by (rule round_to_le)
  moreover have "?x / 2 ^ 53 \<le> 100 / 2 ^ 53"
    using x(2) by (intro divide_right_mono) simp_all
  ultimately have d: "to_double ?x \<le> 100 + 1 / 2" using x(2) by simp
  have "to_float (to_double ?x) \<le> to_double ?x + to_double ?x / 2 ^ 24"
    unfolding to_float_def using d0 by (rule round_to_le)
  moreover have "to_double ?x / 2 ^ 24 \<le> (100 + 1 / 2) / 2 ^ 24"
    using d by (intro divide_right_mono) simp_all
  ultimately show ?thesis using d by simp
qed

section \<open>Digit decoder: the accumulators\<close>

lemma upt_10: "[0..<10] = [0, 1, 2, 3, 4, 5, 6, 7, 8, 9]"
  by (simp add: upt_rec)

lemma upt_slots:
  "[0..<4] = [0, 1, 2, 3]" "[4..<8] = [4, 5, 6, 7]"
  "[8..<12] = [8, 9, 10, 11]" "[12..<16] = [12, 13, 14, 15]"
  by (simp_all add: upt_rec)

lemma lut_loop_1: "lut_loop data_digit_lut_1 x p a = a + of_nat (digit_1 x) * 10 ^ p"
  by (simp add: lut_loop_def data_digit_lut_1_def upt_10 digit_1_def)

lemma lut_loop_2: "lut_loop data_digit_lut_2 x p a = a + of_nat (digit_2 x) * 10 ^ p"
  by (simp add: lut_loop_def data_digit_lut_2_def upt_10 digit_2_def)

lemma digit_1_le: "digit_1 x \<le> 9"
  by (simp add: digit_1_def)

lemma digit_2_le: "digit_2 x \<le> 9"
  by (simp add: digit_2_def)



lemma unat_digits4:
  assumes "a \<le> 9" "b \<le> 9" "c \<le> 9" "d \<le> 9"
  shows "unat (of_nat (a * 1000 + b * 100 + c * 10 + d) :: u32) = a * 1000 + b * 100 + c * 10 + d"
proof -
  from assms have "a * 1000 + b * 100 + c * 10 + d \<le> 9999" by linarith
  then show ?thesis by (simp add: unat_of_nat del: of_nat_add of_nat_mult)
qed

lemma unat_voltage_acc:
  "unat (voltage_acc db) =
     digit_1 (db ! 0) * 1000 + digit_1 (db ! 1) * 100 + digit_1 (db ! 2) * 10 + digit_1 (db ! 3)"
proof -
  have "voltage_acc db = of_nat (digit_1 (db ! 0) * 1000 + digit_1 (db ! 1) * 100 +
          digit_1 (db ! 2) * 10 + digit_1 (db ! 3))"
    by (simp add: voltage_acc_def upt_slots lut_loop_1)
  then show ?thesis
    by (simp only: unat_digits4 [OF digit_1_le digit_1_le digit_1_le digit_1_le])
qed

lemma unat_current_acc:
  "unat (current_acc db) =
     digit_1 (db ! 4) * 1000 + digit_1 (db ! 5) * 100 + digit_1 (db ! 6) * 10 + digit_1 (db ! 7)"
proof -
  have "current_acc db = of_nat (digit_1 (db ! 4) * 1000 + digit_1 (db ! 5) * 100 +
          digit_1 (db ! 6) * 10 + digit_1 (db ! 7))"
    by (simp add: current_acc_def upt_slots lut_loop_1)
  then show ?thesis
    by (simp only: unat_digits4 [OF digit_1_le digit_1_le digit_1_le digit_1_le])
qed

lemma unat_power_acc:
  "unat (power_acc db) =
     digit_2 (drop_bit 1 (db ! 8)) * 1000 + digit_2 (drop_bit 1 (db ! 9)) * 100 +
     digit_2 (drop_bit 1 (db ! 10)) * 10 + digit_2 (drop_bit 1 (db ! 11))"
proof -
  have "power_acc db = of_nat (digit_2 (drop_bit 1 (db ! 8)) * 1000 +
          digit_2 (drop_bit 1 (db ! 9)) * 100 + digit_2 (drop_bit 1 (db ! 10)) * 10 +
          digit_2 (drop_bit 1 (db ! 11)))"
    by (simp add: power_acc_def upt_slots lut_loop_2)
  then show ?thesis
    by (simp only: unat_digits4 [OF digit_2_le digit_2_le digit_2_le digit_2_le])
qed

lemma unat_energy_acc:
  "unat (energy_acc db) =
     digit_2 (drop_bit 1 (db ! 12)) * 1000 + digit_2 (drop_bit 1 (db ! 13)) * 100 +
     digit_2 (drop_bit 1 (db ! 14)) * 10 + digit_2 (drop_bit 1 (db ! 15))"
proof -
  have "energy_acc db = of_nat (digit_2 (drop_bit 1 (db ! 12)) * 1000 +
          digit_2 (drop_bit 1 (db ! 13)) * 100 + digit_2 (drop_bit 1 (db ! 14)) * 10 +
          digit_2 (drop_bit 1 (db ! 15)))"
    by (simp add: energy_acc_def upt_slots lut_loop_2)
  then show ?thesis
    by (simp only: unat_digits4 [OF digit_2_le digit_2_le digit_2_le digit_2_le])
qed

lemma acc_le:
  "unat (voltage_acc db) \<le> 9999" "unat (current_acc db) \<le> 9999"
  "unat (power_acc db) \<le> 9999" "unat (energy_acc db) \<le> 9999"
proof -
  show "unat (voltage_acc db) \<le> 9999"
    unfolding unat_voltage_acc
    using digit_1_le [of "db ! 0"] digit_1_le [of "db ! 1"] digit_1_le [of "db ! 2"]
      digit_1_le [of "db ! 3"] by linarith
  show "unat (current_acc db) \<le> 9999"
    unfolding unat_current_acc
    using digit_1_le [of "db ! 4"] digit_1_le [of "db ! 5"] digit_1_le [of "db ! 6"]
      digit_1_le [of "db ! 7"] by linarith
  show "unat (power_acc db) \<le> 9999"
    unfolding unat_power_acc
    using digit_2_le [of "drop_bit 1 (db ! 8)"] digit_2_le [of "drop_bit 1 (db ! 9)"]
      digit_2_le [of "drop_bit 1 (db ! 10)"] digit_2_le [of "drop_bit 1 (db ! 11)"]
    by linarith
  show "unat (energy_acc db) \<le> 9999"
    unfolding unat_energy_acc
    using digit_2_le [of "drop_bit 1 (db ! 12)"] digit_2_le [of "drop_bit 1 (db ! 13)"]
      digit_2_le [of "drop_bit 1 (db ! 14)"] digit_2_le [of "drop_bit 1 (db ! 15)"]
    by linarith
qed

lemma and_1_bit0: "((x :: u32) AND 1 \<noteq> 0) = bit x 0"
  by (simp add: bit_iff_and_push_bit_not_eq_0)


lemma unat_times_1000: "unat (e :: u32) \<le> 9999 \<Longrightarrow> unat (e * 1000) = unat e * 1000"
  by (simp add: unat_word_ariths)

lemma sint_small:
  assumes "unat (e :: u32) < 2 ^ 31"
  shows "sint e = int (unat e)"
proof -
  from assms have "int (unat e) < int (2 ^ 31)"
    by (simp only: of_nat_less_iff)
  then have lt: "uint e < 2 ^ 31" by simp
  have "sint e = signed_take_bit 31 (uint e)"
    by (simp add: sint_uint)
  also have "\<dots> = uint e"
  proof (rule signed_take_bit_int_eq_self)
    show "- (2 ^ 31) \<le> uint e" by (rule order_trans [of _ 0]) simp_all
    show "uint e < 2 ^ 31" by (rule lt)
  qed
  finally show ?thesis by simp
qed

lemma get_voltage_ok:
  "process_data_buffer rb db = Inr (True, d) \<Longrightarrow>
     get_voltage rb db = Inr (to_float (to_double (of_nat (unat (voltage_acc d)) / 100)), d)"
  by (simp add: get_voltage_def)

lemma get_current_ok:
  "process_data_buffer rb db = Inr (True, d) \<Longrightarrow>
     get_current rb db = Inr (to_float (to_double (of_nat (unat (current_acc d)) / 100)), d)"
  by (simp add: get_current_def)

lemma get_power_ok:
  "process_data_buffer rb db = Inr (True, d) \<Longrightarrow>
     get_power rb db =
       Inr (if bit (d ! 10) 0
            then to_float (to_double (to_float (of_nat (unat (power_acc d))) / 10))
            else to_float (of_nat (unat (power_acc d))), d)"
  by (simp add: get_power_def and_1_bit0 Let_def)

lemma get_energy_ok:
  assumes "process_data_buffer rb db = Inr (True, d)"
  shows "get_energy rb db =
       Inr (if bit (d ! 15) 0 then int (unat (energy_acc d)) * 1000
            else int (unat (energy_acc d)), d)"
proof -
  have le: "unat (energy_acc d) \<le> 9999" by (rule acc_le)
  then have a: "sint (energy_acc d) = int (unat (energy_acc d))"
    by (intro sint_small) simp
  from le have "sint (energy_acc d * 1000) = int (unat (energy_acc d * 1000))"
    by (intro sint_small) (simp add: unat_times_1000)
  with le have b: "sint (energy_acc d * 1000) = int (unat (energy_acc d)) * 1000"
    by (simp add: unat_times_1000)
  from assms a b show ?thesis
    by (simp add: get_energy_def Let_def and_1_bit0)
qed

lemma process_table_frame:
  "process_data_buffer table_frame zero_slots = Inr (True, table_slots)"
  by code_simp

lemma process_capture:
  "process_data_buffer capture_frame zero_slots = Inr (True, capture_slots)"
  "process_data_buffer capture_frame capture_slots = Inr (True, capture_slots)"
  by code_simp+

lemma digit_1_table:
  "digit_1 117 = 0" "digit_1 5 = 1" "digit_1 83 = 2" "digit_1 23 = 3" "digit_1 54 = 5"
  "digit_1 0 = 0"
  by (simp_all add: digit_1_def)

lemma digit_2_table:
  "digit_2 125 = 0" "digit_2 39 = 4" "digit_2 107 = 5" "digit_2 123 = 6"
  "digit_2 69 = 7" "digit_2 127 = 8" "digit_2 111 = 9" "digit_2 0 = 0"
  by (simp_all add: digit_2_def)

text \<open>
  C3 (as amended).  After a successful extraction that leaves the values
  117, 5, 83, 23 in slots 0 to 3, the voltage loop recovers the digits
  0, 1, 2, 3 (117 is the table's pattern for 0 and 5 its pattern for 1), the
  accumulator is 123 and \<open>get_voltage\<close> returns the \<open>float\<close> nearest to 1.23,
  which is 2579497 / 2097152 (bit pattern 0x3F9D70A4).
\<close>

theorem C3_table_roundtrip:
  assumes "process_data_buffer rb db = Inr (True, d)" and "take 4 d = [117, 5, 83, 23]"
  shows "map (\<lambda>x. lut_loop data_digit_lut_1 x 0 0) (take 4 d) = [0, 1, 2, 3] \<and>
         voltage_acc d = 123 \<and>
         get_voltage rb db = Inr (to_float (to_double (123 / 100)), d) \<and>
         to_float (to_double (123 / 100)) = 2579497 / 2097152"
proof -
  have "d ! 0 = take 4 d ! 0" "d ! 1 = take 4 d ! 1" "d ! 2 = take 4 d ! 2"
    "d ! 3 = take 4 d ! 3"
    by simp_all
  then have s: "d ! 0 = 117" "d ! 1 = 5" "d ! 2 = 83" "d ! 3 = 23"
    by (simp_all add: assms(2))
  have u: "unat (voltage_acc d) = 123"
    unfolding unat_voltage_acc s digit_1_table by simp
  then have "voltage_acc d = 123"
    by (simp add: word_eq_iff_unsigned [where ?'a = nat])
  moreover have "map (\<lambda>x. lut_loop data_digit_lut_1 x 0 0) (take 4 d) = [0, 1, 2, 3]"
    by (simp add: assms(2) lut_loop_1 digit_1_table)
  moreover have "get_voltage rb db = Inr (to_float (to_double (123 / 100)), d)"
    by (simp add: get_voltage_ok [OF assms(1)] u)
  ultimately show ?thesis by (simp add: float_values)
qed

text \<open>The amended C3 at the ring \<open>table_frame\<close>.\<close>

theorem C3_table_roundtrip_witness:
  "process_data_buffer table_frame zero_slots = Inr (True, table_slots) \<and>
   take 4 table_slots = [117, 5, 83, 23] \<and>
   map (\<lambda>x. lut_loop data_digit_lut_1 x 0 0) (take 4 table_slots) = [0, 1, 2, 3] \<and>
   voltage_acc table_slots = 123 \<and>
   get_voltage table_frame zero_slots = Inr (to_float (to_double (123 / 100)), table_slots) \<and>
   to_float (to_double (123 / 100)) = 2579497 / 2097152"
proof -
  have t: "take 4 table_slots = [117, 5, 83, 23]"
    by (simp add: table_slots_def)
  from C3_table_roundtrip [OF process_table_frame t] process_table_frame t
  show ?thesis by blast
qed

text \<open>
  C3 as stated fails: on the ring \<open>table_frame\<close> the extraction succeeds with
  117, 5, 83, 23 in slots 0 to 3, yet the digits are not 1, 0, 2, 3, the
  accumulator is not 1023 and the result is neither 10.23 nor the \<open>float\<close>
  nearest to 10.23.
\<close>

theorem C3_counterexample:
  "process_data_buffer table_frame zero_slots = Inr (True, table_slots) \<and>
   take 4 table_slots = [117, 5, 83, 23] \<and>
   map (\<lambda>x. lut_loop data_digit_lut_1 x 0 0) (take 4 table_slots) \<noteq> [1, 0, 2, 3] \<and>
   voltage_acc table_slots \<noteq> 1023 \<and>
   get_voltage table_frame zero_slots = Inr (2579497 / 2097152, table_slots) \<and>
   get_voltage table_frame zero_slots \<noteq> Inr (1023 / 100, table_slots) \<and>
   get_voltage table_frame zero_slots \<noteq> Inr (to_float (to_double (1023 / 100)), table_slots)"
proof -
  have u: "unat (voltage_acc table_slots) = 123"
    by (simp add: unat_voltage_acc table_slots_def digit_1_table)
  then have "voltage_acc table_slots \<noteq> 1023"
    by (auto simp: word_eq_iff_unsigned [where ?'a = nat])
  moreover have "map (\<lambda>x. lut_loop data_digit_lut_1 x 0 0) (take 4 table_slots) \<noteq> [1, 0, 2, 3]"
    by (simp add: table_slots_def lut_loop_1 digit_1_table)
  moreover have g: "get_voltage table_frame zero_slots = Inr (2579497 / 2097152, table_slots)"
    by (simp add: get_voltage_ok [OF process_table_frame] u float_values)
  moreover have "get_voltage table_frame zero_slots \<noteq> Inr (1023 / 100, table_slots)"
    "get_voltage table_frame zero_slots \<noteq> Inr (to_float (to_double (1023 / 100)), table_slots)"
    by (simp_all add: g float_values)
  ultimately show ?thesis
    by (simp add: process_table_frame table_slots_def)
qed

lemma capture_accumulators:
  "unat (voltage_acc capture_slots) = 1205" "unat (current_acc capture_slots) = 123"
  "unat (power_acc capture_slots) = 456" "bit (capture_slots ! 10) 0"
  "unat (energy_acc capture_slots) = 789" "\<not> bit (capture_slots ! 15) 0"
  by (simp_all add: unat_voltage_acc unat_current_acc unat_power_acc unat_energy_acc
      capture_slots_def digit_1_table digit_2_table)

lemma capture_results:
  "get_voltage capture_frame zero_slots = Inr (12635341 / 1048576, capture_slots)"
  "get_current capture_frame capture_slots = Inr (2579497 / 2097152, capture_slots)"
  "get_power capture_frame capture_slots = Inr (5976883 / 131072, capture_slots)"
  "get_power capture_frame zero_slots = Inr (5976883 / 131072, capture_slots)"
  "get_energy capture_frame capture_slots = Inr (789, capture_slots)"
proof -
  show "get_voltage capture_frame zero_slots = Inr (12635341 / 1048576, capture_slots)"
    unfolding get_voltage_ok [OF process_capture(1)]
    by (simp add: capture_accumulators float_values)
  show "get_current capture_frame capture_slots = Inr (2579497 / 2097152, capture_slots)"
    unfolding get_current_ok [OF process_capture(2)]
    by (simp add: capture_accumulators float_values)
  show "get_power capture_frame capture_slots = Inr (5976883 / 131072, capture_slots)"
    unfolding get_power_ok [OF process_capture(2)]
    by (simp add: capture_accumulators float_values)
  show "get_power capture_frame zero_slots = Inr (5976883 / 131072, capture_slots)"
    unfolding get_power_ok [OF process_capture(1)]
    by (simp add: capture_accumulators float_values)
  show "get_energy capture_frame capture_slots = Inr (789, capture_slots)"
    unfolding get_energy_ok [OF process_capture(2)]
    by (simp add: capture_accumulators)
qed

text \<open>
  C4 as stated fails: \<open>get_voltage\<close> reads four digits as hundredths, so no ring
  and no digit slots make it return 120.5.  Moreover 1.23 and 45.6 are not
  binary fractions: on the ring \<open>capture_frame\<close>, whose digits spell them,
  \<open>get_current\<close> and \<open>get_power\<close> return the nearest \<open>float\<close>, not these values.
\<close>

theorem C4_counterexample:
  "\<not> (\<exists>rb db v. get_voltage rb db = Inr v \<and> fst v = 241 / 2) \<and>
   get_current capture_frame capture_slots \<noteq> Inr (123 / 100, capture_slots) \<and>
   get_power capture_frame capture_slots \<noteq> Inr (228 / 5, capture_slots)"
proof (intro conjI notI)
  assume "\<exists>rb db v. get_voltage rb db = Inr v \<and> fst v = 241 / 2"
  then obtain rb db d where g: "get_voltage rb db = Inr (241 / 2, d)"
    by (metis prod.collapse)
  have "to_float (to_double (of_nat (unat (voltage_acc d)) / 100)) \<le> 101"
    using acc_le(1) [of d] by (rule float_hundredths_bound)
  then have "to_float (to_double (of_nat (unat (voltage_acc d)) / 100)) \<noteq> 241 / 2"
    by simp
  with g show False
    by (auto simp: get_voltage_def split: sum.splits prod.splits if_splits)
next
  assume "get_current capture_frame capture_slots = Inr (123 / 100, capture_slots)"
  then show False by (simp add: capture_results)
next
  assume "get_power capture_frame capture_slots = Inr (228 / 5, capture_slots)"
  then show False by (simp add: capture_results)
qed

text \<open>
  C4 (as amended).  The ring \<open>capture_frame\<close> holds a full command-5 sequence with
  the addresses 0 to 30, and on it the four accessors, called one after the
  other as the reporting loop does, return the \<open>float\<close> nearest to 12.05 (the
  voltage digits 1, 2, 0, 5 read as hundredths; bit pattern 0x4140CCCD), the
  \<open>float\<close> nearest to 1.23 (0x3F9D70A4), the \<open>float\<close> nearest to 45.6
  (0x42366666) and the integer 789.
\<close>

theorem C4_capture_decodes:
  "length capture_frame = BUFFER_SIZE \<and>
   map pkt_cmd (take 16 capture_frame) = [5, 5, 5, 5, 5, 5, 5, 5, 5, 5, 5, 5, 5, 5, 5, 5] \<and>
   map pkt_addr (take 16 capture_frame) =
     [0, 2, 4, 6, 8, 10, 12, 14, 16, 18, 20, 22, 24, 26, 28, 30] \<and>
   get_voltage capture_frame zero_slots = Inr (to_float (to_double (1205 / 100)), capture_slots) \<and>
   to_float (to_double (1205 / 100)) = 12635341 / 1048576 \<and>
   get_current capture_frame capture_slots = Inr (to_float (to_double (123 / 100)), capture_slots) \<and>
   to_float (to_double (123 / 100)) = 2579497 / 2097152 \<and>
   get_power capture_frame capture_slots = Inr (to_float (to_double (456 / 10)), capture_slots) \<and>
   to_float (to_double (456 / 10)) = 5976883 / 131072 \<and>
   get_energy capture_frame capture_slots = Inr (789, capture_slots)"
proof -
  have "length capture_frame = BUFFER_SIZE"
    by (simp add: capture_frame_def BUFFER_SIZE_def)
  moreover have "map pkt_cmd (take 16 capture_frame) =
      [5, 5, 5, 5, 5, 5, 5, 5, 5, 5, 5, 5, 5, 5, 5, 5]"
    by (simp add: capture_frame_def pkt_cmd_def)
  moreover have "map pkt_addr (take 16 capture_frame) =
      [0, 2, 4, 6, 8, 10, 12, 14, 16, 18, 20, 22, 24, 26, 28, 30]"
    by (simp add: capture_frame_def pkt_addr_def)
  moreover have "to_float (to_double (1205 / 100)) = 12635341 / 1048576"
    "to_float (to_double (123 / 100)) = 2579497 / 2097152"
    "to_float (to_double (456 / 10)) = 5976883 / 131072"
    by (simp_all add: float_values)
  ultimately show ?thesis
    by (simp add: capture_results)
qed

lemma process_nodp: "process_data_buffer nodp_frame zero_slots = Inr (True, nodp_slots)"
  by code_simp

lemma process_kilo: "process_data_buffer kilo_frame zero_slots = Inr (True, kilo_slots)"
  by code_simp


text \<open>
  C7 (as amended).  Take two successful extractions.  If the resulting digit
  slots agree except in bit 0 of slot 10, clear in the first and set in the
  second, then \<open>get_power\<close> on the second is the \<open>float\<close> nearest to one tenth of
  \<open>get_power\<close> on the first (the quotient by 10.0 rounded to \<open>double\<close> and then to
  \<open>float\<close>).  If they agree except in bit 0 of slot 15, clear in the first and
  set in the second, then \<open>get_energy\<close> on the second is exactly 1000 times
  \<open>get_energy\<close> on the first.
\<close>

theorem C7_flag_scales:
  assumes "process_data_buffer rb1 db1 = Inr (True, d1)"
    and "process_data_buffer rb2 db2 = Inr (True, d2)"
  shows "((\<forall>i<16. i \<noteq> 10 \<longrightarrow> d2 ! i = d1 ! i) \<and>
            drop_bit 1 (d2 ! 10) = drop_bit 1 (d1 ! 10) \<and>
            \<not> bit (d1 ! 10) 0 \<and> bit (d2 ! 10) 0 \<longrightarrow>
          (\<exists>p. get_power rb1 db1 = Inr (p, d1) \<and>
               get_power rb2 db2 = Inr (to_float (to_double (p / 10)), d2))) \<and>
         ((\<forall>i<16. i \<noteq> 15 \<longrightarrow> d2 ! i = d1 ! i) \<and>
            drop_bit 1 (d2 ! 15) = drop_bit 1 (d1 ! 15) \<and>
            \<not> bit (d1 ! 15) 0 \<and> bit (d2 ! 15) 0 \<longrightarrow>
          (\<exists>e. get_energy rb1 db1 = Inr (e, d1) \<and> get_energy rb2 db2 = Inr (1000 * e, d2)))"
proof (intro conjI impI)
  assume h: "(\<forall>i<16. i \<noteq> 10 \<longrightarrow> d2 ! i = d1 ! i) \<and>
            drop_bit 1 (d2 ! 10) = drop_bit 1 (d1 ! 10) \<and>
            \<not> bit (d1 ! 10) 0 \<and> bit (d2 ! 10) 0"
  then have "d2 ! 8 = d1 ! 8" "d2 ! 9 = d1 ! 9" "d2 ! 11 = d1 ! 11"
    "drop_bit 1 (d2 ! 10) = drop_bit 1 (d1 ! 10)"
    by simp_all
  then have "unat (power_acc d2) = unat (power_acc d1)"
    by (simp only: unat_power_acc)
  with h show "\<exists>p. get_power rb1 db1 = Inr (p, d1) \<and>
      get_power rb2 db2 = Inr (to_float (to_double (p / 10)), d2)"
    by (simp add: get_power_ok [OF assms(1)] get_power_ok [OF assms(2)])
next
  assume h: "(\<forall>i<16. i \<noteq> 15 \<longrightarrow> d2 ! i = d1 ! i) \<and>
            drop_bit 1 (d2 ! 15) = drop_bit 1 (d1 ! 15) \<and>
            \<not> bit (d1 ! 15) 0 \<and> bit (d2 ! 15) 0"
  then have "d2 ! 12 = d1 ! 12" "d2 ! 13 = d1 ! 13" "d2 ! 14 = d1 ! 14"
    "drop_bit 1 (d2 ! 15) = drop_bit 1 (d1 ! 15)"
    by simp_all
  then have "unat (energy_acc d2) = unat (energy_acc d1)"
    by (simp only: unat_energy_acc)
  with h show "\<exists>e. get_energy rb1 db1 = Inr (e, d1) \<and> get_energy rb2 db2 = Inr (1000 * e, d2)"
    by (simp add: get_energy_ok [OF assms(1)] get_energy_ok [OF assms(2)])
qed

lemma nodp_power: "get_power nodp_frame zero_slots = Inr (456, nodp_slots)"
proof -
  have "unat (power_acc nodp_slots) = 456" "\<not> bit (nodp_slots ! 10) 0"
    by (simp_all add: unat_power_acc nodp_slots_def capture_slots_def digit_2_table)
  then show ?thesis
    unfolding get_power_ok [OF process_nodp] by (simp add: float_values)
qed

text \<open>
  C7 (as amended) at the rings \<open>nodp_frame\<close> and \<open>capture_frame\<close> (decimal flag)
  and at \<open>capture_frame\<close> and \<open>kilo_frame\<close> (kilo flag).
\<close>

theorem C7_flag_scales_witness:
  "process_data_buffer nodp_frame zero_slots = Inr (True, nodp_slots) \<and>
   process_data_buffer capture_frame zero_slots = Inr (True, capture_slots) \<and>
   process_data_buffer kilo_frame zero_slots = Inr (True, kilo_slots) \<and>
   take 10 capture_slots = take 10 nodp_slots \<and> drop 11 capture_slots = drop 11 nodp_slots \<and>
   drop_bit 1 (capture_slots ! 10) = drop_bit 1 (nodp_slots ! 10) \<and>
   \<not> bit (nodp_slots ! 10) 0 \<and> bit (capture_slots ! 10) 0 \<and>
   take 15 kilo_slots = take 15 capture_slots \<and>
   drop_bit 1 (kilo_slots ! 15) = drop_bit 1 (capture_slots ! 15) \<and>
   \<not> bit (capture_slots ! 15) 0 \<and> bit (kilo_slots ! 15) 0 \<and>
   (\<exists>p. get_power nodp_frame zero_slots = Inr (p, nodp_slots) \<and>
        get_power capture_frame zero_slots = Inr (to_float (to_double (p / 10)), capture_slots)) \<and>
   (\<exists>e. get_energy capture_frame zero_slots = Inr (e, capture_slots) \<and>
        get_energy kilo_frame zero_slots = Inr (1000 * e, kilo_slots))"
proof -
  have a: "(\<forall>i<16. i \<noteq> 10 \<longrightarrow> capture_slots ! i = nodp_slots ! i) \<and>
     drop_bit 1 (capture_slots ! 10) = drop_bit 1 (nodp_slots ! 10) \<and>
     \<not> bit (nodp_slots ! 10) 0 \<and> bit (capture_slots ! 10) 0"
    by (simp add: nodp_slots_def) (simp add: capture_slots_def)
  have b: "(\<forall>i<16. i \<noteq> 15 \<longrightarrow> kilo_slots ! i = capture_slots ! i) \<and>
     drop_bit 1 (kilo_slots ! 15) = drop_bit 1 (capture_slots ! 15) \<and>
     \<not> bit (capture_slots ! 15) 0 \<and> bit (kilo_slots ! 15) 0"
    by (simp add: kilo_slots_def) (simp add: capture_slots_def)
  from C7_flag_scales [OF process_nodp process_capture(1)] a
  have p: "\<exists>p. get_power nodp_frame zero_slots = Inr (p, nodp_slots) \<and>
        get_power capture_frame zero_slots = Inr (to_float (to_double (p / 10)), capture_slots)"
    by blast
  from C7_flag_scales [OF process_capture(1) process_kilo] b
  have e: "\<exists>e. get_energy capture_frame zero_slots = Inr (e, capture_slots) \<and>
        get_energy kilo_frame zero_slots = Inr (1000 * e, kilo_slots)"
    by blast
  have c: "take 10 capture_slots = take 10 nodp_slots" "drop 11 capture_slots = drop 11 nodp_slots"
    "take 15 kilo_slots = take 15 capture_slots"
    by (simp_all add: nodp_slots_def kilo_slots_def)
  from a b c p e process_nodp process_capture(1) process_kilo show ?thesis
    by blast
qed

text \<open>
  C7 as stated fails in its power half: the digit slots of \<open>nodp_frame\<close> and
  \<open>capture_frame\<close> agree except in bit 0 of slot 10; \<open>get_power\<close> returns 456 on
  the first and 5976883 / 131072 (0x42366666, about 45.599998) on the second,
  which is not exactly one tenth of 456.
\<close>

theorem C7_counterexample:
  "process_data_buffer nodp_frame zero_slots = Inr (True, nodp_slots) \<and>
   process_data_buffer capture_frame zero_slots = Inr (True, capture_slots) \<and>
   take 10 capture_slots = take 10 nodp_slots \<and> drop 11 capture_slots = drop 11 nodp_slots \<and>
   length capture_slots = 16 \<and> length nodp_slots = 16 \<and>
   drop_bit 1 (capture_slots ! 10) = drop_bit 1 (nodp_slots ! 10) \<and>
   \<not> bit (nodp_slots ! 10) 0 \<and> bit (capture_slots ! 10) 0 \<and>
   get_power nodp_frame zero_slots = Inr (456, nodp_slots) \<and>
   get_power capture_frame zero_slots = Inr (5976883 / 131072, capture_slots) \<and>
   (5976883 / 131072 :: rat) \<noteq> 456 / 10"
proof -
  have "take 10 capture_slots = take 10 nodp_slots" "drop 11 capture_slots = drop 11 nodp_slots"
    "length capture_slots = 16" "length nodp_slots = 16"
    "drop_bit 1 (capture_slots ! 10) = drop_bit 1 (nodp_slots ! 10)"
    "\<not> bit (nodp_slots ! 10) 0" "bit (capture_slots ! 10) 0"
    by (simp_all add: nodp_slots_def capture_slots_def)
  then show ?thesis
    by (simp add: process_nodp process_capture(1) nodp_power capture_results)
qed





section \<open>The scan as a function of the ring contents\<close>

lemma scan_from_list:
  "length rb = BUFFER_SIZE \<Longrightarrow> i \<le> BUFFER_SIZE \<Longrightarrow> scan_from rb i s = scan_list (drop i rb) i s"
proof (induction rb i s rule: scan_from.induct)
  case (1 rb i s)
  note len = \<open>length rb = BUFFER_SIZE\<close>
  show ?case
  proof (cases "i < BUFFER_SIZE")
    case False
    with len show ?thesis by (simp add: scan_from.simps [of rb i s])
  next
    case True
    with len have il: "i < length rb" by simp
    then have d: "drop i rb = rb ! i # drop (i + 1) rb"
      by (simp add: Cons_nth_drop_Suc)
    show ?thesis
    proof (cases "loop_body (rb ! i) s")
      case (Inl e)
      with True il d show ?thesis by (simp add: scan_from.simps [of rb i s])
    next
      case (Inr r)
      obtain c s' where r: "r = (c, s')" by (cases r)
      show ?thesis
      proof (cases c)
        case Brk
        with Inr r True il d show ?thesis by (simp add: scan_from.simps [of rb i s])
      next
        case Next
        with Inr r have b: "loop_body (rb ! i) s = Inr (Next, s')" by simp
        from True have "i + 1 \<le> BUFFER_SIZE" by simp
        from "1.IH" [OF True _ b refl refl len this] il
        have "scan_from rb (i + 1) s' = scan_list (drop (i + 1) rb) (i + 1) s'" by simp
        with b True il d show ?thesis by (simp add: scan_from.simps [of rb i s])
      qed
    qed
  qed
qed

lemma body_other: "pkt_cmd w \<noteq> 5 \<Longrightarrow> loop_body w s = Inr (Next, s)"
  by (simp add: loop_body_def)

lemma body_idle:
  "\<not> data_start s \<Longrightarrow> \<not> (pkt_cmd w = 5 \<and> pkt_addr w = 0) \<Longrightarrow> loop_body w s = Inr (Next, s)"
  by (auto simp: loop_body_def Let_def)

lemma body_mismatch:
  "pkt_cmd w = 5 \<Longrightarrow> data_start s \<Longrightarrow> pkt_addr w \<noteq> expected_addr s \<Longrightarrow>
     loop_body w s = Inr (Brk, s\<lparr>success := False\<rparr>)"
  by (auto simp: loop_body_def Let_def)

lemma body_accept:
  "pkt_cmd w = 5 \<Longrightarrow> data_start s \<or> pkt_addr w = 0 \<Longrightarrow> pkt_addr w = expected_addr s \<Longrightarrow>
   unat (data_idx s) < length (data_buffer s) \<Longrightarrow>
     loop_body w s =
       (if pkt_addr w = 30 then Inr (Brk, (accept s w)\<lparr>success := True\<rparr>)
        else Inr (Next, accept s w))"
  by (auto simp: loop_body_def Let_def accept_def slot_value_def)

lemma skip_idle:
  "\<not> data_start s \<Longrightarrow> \<forall>w \<in> set ws. \<not> (pkt_cmd w = 5 \<and> pkt_addr w = 0) \<Longrightarrow>
     scan_list (ws @ rest) i s = scan_list rest (i + length ws) s"
proof (induction ws arbitrary: i)
  case Nil
  then show ?case by simp
next
  case (Cons w ws)
  then have "loop_body w s = Inr (Next, s)"
    by (intro body_idle) simp_all
  with Cons show ?case by simp
qed

lemma accept_run:
  assumes "data_start s \<or> n = 0"
    and "unat (data_idx s) = n" and "unat (expected_addr s) = 2 * n"
    and "length (data_buffer s) = 16"
    and "map (\<lambda>w. unat (pkt_addr w)) (filter (\<lambda>w. pkt_cmd w = 5) ws) = map (\<lambda>k. 2 * k) [n..<n + c]"
    and "n + c \<le> 15"
  shows "scan_list (ws @ rest) i s =
           scan_list rest (i + length ws) (foldl accept s (filter (\<lambda>w. pkt_cmd w = 5) ws))"
  using assms
proof (induction ws arbitrary: s n c i)
  case Nil
  then show ?case by simp
next
  case (Cons w ws)
  show ?case
  proof (cases "pkt_cmd w = 5")
    case False
    then have b: "loop_body w s = Inr (Next, s)" by (rule body_other)
    from False Cons.prems(5)
    have "map (\<lambda>w. unat (pkt_addr w)) (filter (\<lambda>w. pkt_cmd w = 5) ws) = map (\<lambda>k. 2 * k) [n..<n + c]"
      by simp
    from Cons.IH [OF Cons.prems(1-4) this Cons.prems(6), of "i + 1"] b False
    show ?thesis by simp
  next
    case True
    with Cons.prems(5)
    have m: "unat (pkt_addr w) # map (\<lambda>w. unat (pkt_addr w)) (filter (\<lambda>w. pkt_cmd w = 5) ws)
              = map (\<lambda>k. 2 * k) [n..<n + c]"
      by simp
    then have c0: "0 < c" by (cases c) auto
    then have u: "[n..<n + c] = n # [Suc n..<Suc n + (c - 1)]"
      by (simp add: upt_conv_Cons)
    from m u have a: "unat (pkt_addr w) = 2 * n"
      and m': "map (\<lambda>w. unat (pkt_addr w)) (filter (\<lambda>w. pkt_cmd w = 5) ws)
                 = map (\<lambda>k. 2 * k) [Suc n..<Suc n + (c - 1)]"
      by simp_all
    from c0 Cons.prems(6) have n14: "n \<le> 14" by simp
    from a Cons.prems(3) have eq: "pkt_addr w = expected_addr s"
      by (simp add: word_eq_iff_unsigned [where ?'a = nat])
    from a n14 have n30: "pkt_addr w \<noteq> 30"
      by (auto simp: word_eq_iff_unsigned [where ?'a = nat])
    from a Cons.prems(1) have st: "data_start s \<or> pkt_addr w = 0"
      by (auto simp: word_eq_iff_unsigned [where ?'a = nat])
    from n14 Cons.prems(2,4) have "unat (data_idx s) < length (data_buffer s)" by simp
    from body_accept [OF True st eq this] n30
    have b: "loop_body w s = Inr (Next, accept s w)" by simp
    have p1: "data_start (accept s w) \<or> Suc n = 0" by (simp add: accept_def)
    have p2: "unat (data_idx (accept s w)) = Suc n"
      using n14 Cons.prems(2) by (simp add: accept_def unat_inc8)
    have p3: "unat (expected_addr (accept s w)) = 2 * Suc n"
      using n14 Cons.prems(3) by (simp add: accept_def unat_add2)
    have p4: "length (data_buffer (accept s w)) = 16"
      using Cons.prems(4) by (simp add: accept_def)
    from c0 Cons.prems(6) have p6: "Suc n + (c - 1) \<le> 15" by simp
    from Cons.IH [OF p1 p2 p3 p4 m' p6, of "i + 1"] b True
    show ?thesis by simp
  qed
qed

lemma foldl_accept:
  assumes "unat (data_idx s) = n" and "unat (expected_addr s) = 2 * n"
    and "n + length ws \<le> 16" and "length (data_buffer s) = 16"
  shows "data_buffer (foldl accept s ws) =
           take n (data_buffer s) @ map slot_value ws @ drop (n + length ws) (data_buffer s) \<and>
         writes (foldl accept s ws) = writes s @ zip [n..<n + length ws] (map slot_value ws) \<and>
         success (foldl accept s ws) = success s \<and>
         (data_start (foldl accept s ws) \<longleftrightarrow> data_start s \<or> ws \<noteq> []) \<and>
         unat (data_idx (foldl accept s ws)) = n + length ws \<and>
         unat (expected_addr (foldl accept s ws)) = 2 * (n + length ws)"
  using assms
proof (induction ws arbitrary: s n)
  case Nil
  then show ?case by simp
next
  case (Cons w ws)
  let ?s = "accept s w"
  from Cons.prems(3) have n15: "n \<le> 15" by simp
  have p1: "unat (data_idx ?s) = Suc n"
    using n15 Cons.prems(1) by (simp add: accept_def unat_inc8)
  have p2: "unat (expected_addr ?s) = 2 * Suc n"
    using n15 Cons.prems(2) by (simp add: accept_def unat_add2)
  have p3: "Suc n + length ws \<le> 16" using Cons.prems(3) by simp
  have p4: "length (data_buffer ?s) = 16" using Cons.prems(4) by (simp add: accept_def)
  note ih = Cons.IH [OF p1 p2 p3 p4]
  have db: "data_buffer ?s = (data_buffer s)[n := slot_value w]"
    using Cons.prems(1) by (simp add: accept_def)
  have tk: "take (Suc n) (data_buffer ?s) = take n (data_buffer s) @ [slot_value w]"
    using n15 Cons.prems(4) by (simp add: db take_Suc_conv_app_nth)
  have dr: "drop (Suc (n + length ws)) (data_buffer ?s) = drop (Suc (n + length ws)) (data_buffer s)"
    by (simp add: db)
  have wr: "writes ?s = writes s @ [(n, slot_value w)]"
    using Cons.prems(1) by (simp add: accept_def)
  have up: "[n..<Suc (n + length ws)] = n # [Suc n..<Suc (n + length ws)]"
    by (rule upt_conv_Cons) simp
  have o: "success ?s = success s" "data_start ?s" by (simp_all add: accept_def)
  from ih show ?case
    by (simp add: tk dr wr up o del: upt_Suc)
qed

lemma slice_decomp:
  "lo \<le> hi \<Longrightarrow> hi \<le> length rb \<Longrightarrow>
     rb = take lo rb @ take (hi - lo) (drop lo rb) @ drop hi rb"
  by (metis append_take_drop_id drop_drop le_add_diff_inverse2 add.commute)

lemma idle_prefix:
  assumes "\<forall>j<lo. \<not> (pkt_cmd (rb ! j) = 5 \<and> pkt_addr (rb ! j) = 0)" and "lo \<le> length rb"
  shows "\<forall>w \<in> set (take lo rb). \<not> (pkt_cmd w = 5 \<and> pkt_addr w = 0)"
proof
  fix w assume "w \<in> set (take lo rb)"
  then obtain j where "j < length (take lo rb)" "w = take lo rb ! j"
    by (auto simp: in_set_conv_nth)
  with assms show "\<not> (pkt_cmd w = 5 \<and> pkt_addr w = 0)" by simp
qed

lemma scan_init_facts:
  "\<not> data_start (scan_init db)" "unat (data_idx (scan_init db)) = 0"
  "unat (expected_addr (scan_init db)) = 2 * 0" "data_buffer (scan_init db) = db"
  "\<not> success (scan_init db)" "writes (scan_init db) = []"
  by (simp_all add: scan_init_def)

text \<open>
  The scan up to slot \<open>hi\<close> when no start word precedes slot \<open>lo\<close> and the
  command-5 words from \<open>lo\<close> on carry the expected addresses.
\<close>

lemma scan_accepts:
  assumes len: "length rb = BUFFER_SIZE" and ldb: "length db = 16"
    and lo: "lo \<le> hi" and hi: "hi \<le> BUFFER_SIZE"
    and idle: "\<forall>j<lo. \<not> (pkt_cmd (rb ! j) = 5 \<and> pkt_addr (rb ! j) = 0)"
    and addrs: "map (\<lambda>w. unat (pkt_addr w)) (cmd5_between rb lo hi) = map (\<lambda>k. 2 * k) [0..<c]"
    and c: "c \<le> 15"
  shows "process_scan rb db =
           scan_list (drop hi rb) hi (foldl accept (scan_init db) (cmd5_between rb lo hi))"
proof -
  let ?pre = "take lo rb" and ?run = "take (hi - lo) (drop lo rb)" and ?post = "drop hi rb"
  from lo hi len have rb: "rb = ?pre @ ?run @ ?post"
    by (intro slice_decomp) simp_all
  from lo hi len have l1: "length ?pre = lo" and l2: "length ?run = hi - lo" by simp_all
  have "process_scan rb db = scan_list rb 0 (scan_init db)"
    using len by (simp add: process_scan_def scan_from_list)
  also have "\<dots> = scan_list (?pre @ ?run @ ?post) 0 (scan_init db)"
    using rb by simp
  also have "\<dots> = scan_list (?run @ ?post) lo (scan_init db)"
    using skip_idle [OF scan_init_facts(1) idle_prefix [OF idle], where rest = "?run @ ?post" and i = 0]
      lo hi len
    by (simp add: l1)
  also have "\<dots> = scan_list ?post (lo + length ?run)
                      (foldl accept (scan_init db) (filter (\<lambda>w. pkt_cmd w = 5) ?run))"
  proof (rule accept_run [where n = 0 and c = c])
    show "data_start (scan_init db) \<or> (0::nat) = 0" by simp
    show "unat (data_idx (scan_init db)) = 0" by (rule scan_init_facts)
    show "unat (expected_addr (scan_init db)) = 2 * 0" by (rule scan_init_facts)
    show "length (data_buffer (scan_init db)) = 16" using ldb by (simp add: scan_init_facts)
    show "map (\<lambda>w. unat (pkt_addr w)) (filter (\<lambda>w. pkt_cmd w = 5) ?run) = map (\<lambda>k. 2 * k) [0..<0 + c]"
      using addrs by (simp add: cmd5_between_def)
    show "0 + c \<le> 15" using c by simp
  qed
  finally have f: "process_scan rb db = scan_list ?post (lo + length ?run)
                      (foldl accept (scan_init db) (filter (\<lambda>w. pkt_cmd w = 5) ?run))" .
  have e: "lo + length ?run = hi" using lo hi len by simp
  from f [unfolded e] show ?thesis by (simp only: cmd5_between_def)
qed

lemma scan_from_ge: "scan_from rb i s = Inr (m, st) \<Longrightarrow> i \<le> m"
proof (induction rb i s rule: scan_from.induct)
  case (1 rb i s)
  show ?case
  proof (cases "i < BUFFER_SIZE \<and> i < length rb")
    case False
    with "1.prems" show ?thesis
      by (auto simp: scan_from.simps [of rb i s] split: if_splits)
  next
    case True
    show ?thesis
    proof (cases "loop_body (rb ! i) s")
      case (Inl e)
      with True "1.prems" show ?thesis by (simp add: scan_from.simps [of rb i s])
    next
      case (Inr r)
      obtain c s' where r: "r = (c, s')" by (cases r)
      show ?thesis
      proof (cases c)
        case Brk
        with Inr r True "1.prems" show ?thesis by (simp add: scan_from.simps [of rb i s])
      next
        case Next
        with Inr r have b: "loop_body (rb ! i) s = Inr (Next, s')" by simp
        with True "1.prems" have "scan_from rb (i + 1) s' = Inr (m, st)"
          by (simp add: scan_from.simps [of rb i s])
        from "1.IH" [OF _ _ b refl refl this] True show ?thesis by simp
      qed
    qed
  qed
qed

lemma scan_from_done: "\<not> i < BUFFER_SIZE \<Longrightarrow> scan_from rb i s = Inr (i, s)"
  by (simp add: scan_from.simps [of rb i s])

lemma scan_from_step:
  "i < BUFFER_SIZE \<Longrightarrow> i < length rb \<Longrightarrow>
     scan_from rb i s =
       (case loop_body (rb ! i) s of
          Inl e \<Rightarrow> Inl e
        | Inr (Brk, s') \<Rightarrow> Inr (i, s')
        | Inr (Next, s') \<Rightarrow> scan_from rb (i + 1) s')"
  by (simp add: scan_from.simps [of rb i s])

lemma scan_from_prefix:
  "scan_from rb i s = Inr (m, st) \<Longrightarrow> length rb = BUFFER_SIZE \<Longrightarrow> length rb' = BUFFER_SIZE \<Longrightarrow>
   \<forall>j. i \<le> j \<and> j \<le> last_examined m \<longrightarrow> rb' ! j = rb ! j \<Longrightarrow>
     scan_from rb' i s = Inr (m, st)"
proof (induction rb i s rule: scan_from.induct)
  case (1 rb i s)
  note run = \<open>scan_from rb i s = Inr (m, st)\<close> and len = \<open>length rb = BUFFER_SIZE\<close>
    and len' = \<open>length rb' = BUFFER_SIZE\<close>
    and agree = \<open>\<forall>j. i \<le> j \<and> j \<le> last_examined m \<longrightarrow> rb' ! j = rb ! j\<close>
  show ?case
  proof (cases "i < BUFFER_SIZE")
    case False
    with run show ?thesis
      by (simp add: scan_from_done)
  next
    case True
    with len len' have il: "i < length rb" "i < length rb'" by simp_all
    from scan_from_ge [OF run] True have "i \<le> last_examined m"
      by (simp add: last_examined_def)
    with agree have w: "rb' ! i = rb ! i" by simp
    show ?thesis
    proof (cases "loop_body (rb ! i) s")
      case (Inl e)
      with True il run show ?thesis by (simp add: scan_from_step)
    next
      case (Inr r)
      obtain c s' where r: "r = (c, s')" by (cases r)
      show ?thesis
      proof (cases c)
        case Brk
        with Inr r have b: "loop_body (rb ! i) s = Inr (Brk, s')" by simp
        with True il run have "m = i \<and> st = s'"
          by (simp add: scan_from_step)
        moreover from b w True il have "scan_from rb' i s = Inr (i, s')"
          by (simp add: scan_from_step)
        ultimately show ?thesis by simp
      next
        case Next
        with Inr r have b: "loop_body (rb ! i) s = Inr (Next, s')" by simp
        with True il run have n: "scan_from rb (i + 1) s' = Inr (m, st)"
          by (simp add: scan_from_step)
        from agree have "\<forall>j. i + 1 \<le> j \<and> j \<le> last_examined m \<longrightarrow> rb' ! j = rb ! j"
          by simp
        from "1.IH" [OF True _ b refl refl n len len' this] il
        have "scan_from rb' (i + 1) s' = Inr (m, st)" by simp
        with b True il w show ?thesis
          by (simp add: scan_from_step)
      qed
    qed
  qed
qed

text \<open>
  C9.  Let the scan of the ring \<open>rb\<close> leave the loop with index \<open>i\<close> (the index
  of the \<^verbatim>\<open>break\<close>, or \<open>BUFFER_SIZE\<close> when the ring is exhausted, so that the last
  slot looked at is \<open>last_examined i\<close>).  On every ring \<open>rb'\<close> that agrees with \<open>rb\<close>
  on the slots 0 to \<open>last_examined i\<close>, from the same digit slots, the scan ends
  at the same index in the same state: same flag, same digit slots, same log of
  stores.
\<close>

theorem C9_scan_prefix:
  assumes "length rb = BUFFER_SIZE" and "length rb' = BUFFER_SIZE"
    and "process_scan rb db = Inr (i, st)"
    and "\<forall>j \<le> last_examined i. rb' ! j = rb ! j"
  shows "process_scan rb' db = Inr (i, st) \<and>
         process_data_buffer rb' db = Inr (success st, data_buffer st) \<and>
         process_data_buffer rb db = Inr (success st, data_buffer st)"
proof -
  from assms(4) have "\<forall>j. 0 \<le> j \<and> j \<le> last_examined i \<longrightarrow> rb' ! j = rb ! j" by simp
  from scan_from_prefix [OF assms(3) [unfolded process_scan_def] assms(1,2) this]
  have "process_scan rb' db = Inr (i, st)" by (simp add: process_scan_def)
  with assms(3) show ?thesis by (simp add: process_data_buffer_def)
qed

text \<open>
  C5.  If no slot of the ring holds a word with command 5 and address 0,
  \<open>process_data_buffer\<close> returns false and leaves the digit slots as they were,
  \<open>get_voltage\<close>, \<open>get_current\<close> and \<open>get_power\<close> return the sentinel -1.0 and
  \<open>get_energy\<close> the sentinel -1.
\<close>

theorem C5_no_start_word:
  assumes "length rb = BUFFER_SIZE"
    and "\<forall>j<BUFFER_SIZE. \<not> (pkt_cmd (rb ! j) = 5 \<and> pkt_addr (rb ! j) = 0)"
  shows "process_data_buffer rb db = Inr (False, db) \<and>
         get_voltage rb db = Inr (- 1, db) \<and> get_current rb db = Inr (- 1, db) \<and>
         get_power rb db = Inr (- 1, db) \<and> get_energy rb db = Inr (- 1, db)"
proof -
  from assms have "\<forall>w \<in> set (take BUFFER_SIZE rb). \<not> (pkt_cmd w = 5 \<and> pkt_addr w = 0)"
    by (intro idle_prefix) simp_all
  with assms(1) have "\<forall>w \<in> set rb. \<not> (pkt_cmd w = 5 \<and> pkt_addr w = 0)" by simp
  from skip_idle [OF scan_init_facts(1) this, where rest = "[]" and i = 0]
  have "scan_list rb 0 (scan_init db) = Inr (length rb, scan_init db)" by simp
  with assms(1) have "process_scan rb db = Inr (BUFFER_SIZE, scan_init db)"
    by (simp add: process_scan_def scan_from_list)
  then have p: "process_data_buffer rb db = Inr (False, db)"
    by (simp add: process_data_buffer_def scan_init_facts)
  then show ?thesis
    by (simp add: get_voltage_def get_current_def get_power_def get_energy_def)
qed

section \<open>Full sequences and address mismatches\<close>

lemma cmd5_between_snoc:
  assumes "lo \<le> e" and "e < length rb" and "pkt_cmd (rb ! e) = 5"
  shows "cmd5_between rb lo (Suc e) = cmd5_between rb lo e @ [rb ! e]"
proof -
  from assms(1) have "Suc e - lo = Suc (e - lo)" by simp
  moreover from assms(1,2) have "e - lo < length (drop lo rb)" by simp
  ultimately have "take (Suc e - lo) (drop lo rb) = take (e - lo) (drop lo rb) @ [drop lo rb ! (e - lo)]"
    by (simp add: take_Suc_conv_app_nth)
  moreover from assms(1,2) have "drop lo rb ! (e - lo) = rb ! e" by simp
  ultimately show ?thesis using assms(3) by (simp add: cmd5_between_def)
qed

lemma upt_16: "[0..<16] = [0..<15] @ [15]"
  using upt_Suc_append [of 0 15] by simp

text \<open>
  C1 (as amended).  Let the command-5 words in the slots \<open>lo\<close> to \<open>hi\<close> of the ring
  be sixteen words with the addresses 0, 2, ..., 30 in this order, the last of
  them in slot \<open>hi\<close>, and let no slot before \<open>lo\<close> hold a command-5 word with
  address 0.  Then \<open>process_data_buffer\<close> returns true and slot \<open>k\<close> of
  \<open>data_buffer\<close> holds the \<open>k\<close>-th of these words (address \<open>2 * k\<close>) masked with
  0x77 for \<open>k < 8\<close> and with 0xFF otherwise.
\<close>

theorem C1_full_sequence:
  assumes len: "length rb = BUFFER_SIZE" and ldb: "length db = 16"
    and se: "lo \<le> hi" and eb: "hi < BUFFER_SIZE"
    and ce: "pkt_cmd (rb ! hi) = 5"
    and addrs: "map (\<lambda>w. unat (pkt_addr w)) (cmd5_between rb lo (Suc hi)) = map (\<lambda>k. 2 * k) [0..<16]"
    and idle: "\<forall>j<lo. \<not> (pkt_cmd (rb ! j) = 5 \<and> pkt_addr (rb ! j) = 0)"
  shows "\<exists>d. process_data_buffer rb db = Inr (True, d) \<and> length d = 16 \<and>
           (\<forall>k<16. d ! k = (cmd5_between rb lo (Suc hi) ! k) AND (if k < 8 then 0x77 else 0xFF))"
proof -
  let ?ws = "cmd5_between rb lo hi" and ?w = "rb ! hi"
  let ?s0 = "scan_init db"
  let ?s15 = "foldl accept ?s0 ?ws"
  from eb len have el: "hi < length rb" by simp
  have sn: "cmd5_between rb lo (Suc hi) = ?ws @ [?w]"
    by (rule cmd5_between_snoc [OF se el ce])
  from addrs have a15: "map (\<lambda>w. unat (pkt_addr w)) ?ws = map (\<lambda>k. 2 * k) [0..<15]"
    and a30: "unat (pkt_addr ?w) = 30"
    by (simp_all add: sn upt_16)
  from a15 have l15: "length ?ws = 15"
    by (auto dest: arg_cong [where f = length])
  from eb have "hi \<le> BUFFER_SIZE" by simp
  from scan_accepts [OF len ldb se this idle a15]
  have ps: "process_scan rb db = scan_list (drop hi rb) hi ?s15" by simp
  have f15: "data_start ?s15" "unat (data_idx ?s15) = 15" "unat (expected_addr ?s15) = 30"
    "success ?s15 = False"
    using foldl_accept [OF scan_init_facts(2,3), of ?ws db] l15 ldb
    by (auto simp: scan_init_facts)
  have ld: "length (data_buffer ?s15) = 16"
    using foldl_accept [OF scan_init_facts(2,3), of ?ws db] l15 ldb
    by (simp add: scan_init_facts)
  from a30 f15(3) have eq: "pkt_addr ?w = expected_addr ?s15"
    by (simp add: word_eq_iff_unsigned [where ?'a = nat])
  from a30 have w30: "pkt_addr ?w = 30"
    by (simp add: word_eq_iff_unsigned [where ?'a = nat])
  have b: "loop_body ?w ?s15 = Inr (Brk, (accept ?s15 ?w)\<lparr>success := True\<rparr>)"
    using body_accept [OF ce _ eq, of ] f15(1,2) ld w30 by simp
  have dr: "drop hi rb = ?w # drop (Suc hi) rb"
    using el by (simp add: Cons_nth_drop_Suc)
  from ps b have res: "process_scan rb db = Inr (hi, (accept ?s15 ?w)\<lparr>success := True\<rparr>)"
    by (simp add: dr)
  have "accept ?s15 ?w = foldl accept ?s0 (?ws @ [?w])" by simp
  moreover have "data_buffer (foldl accept ?s0 (?ws @ [?w])) = map slot_value (?ws @ [?w])"
    using foldl_accept [OF scan_init_facts(2,3), of "?ws @ [?w]" db] l15 ldb
    by (simp add: scan_init_facts)
  ultimately have d: "data_buffer (accept ?s15 ?w) = map slot_value (cmd5_between rb lo (Suc hi))"
    by (simp only: sn)
  have l16: "length (cmd5_between rb lo (Suc hi)) = 16"
    by (simp add: sn l15)
  have v: "slot_value (cmd5_between rb lo (Suc hi) ! k)
           = (cmd5_between rb lo (Suc hi) ! k) AND (if k < 8 then 0x77 else 0xFF)" if k: "k < 16" for k
  proof -
    from k l16 have "map (\<lambda>w. unat (pkt_addr w)) (cmd5_between rb lo (Suc hi)) ! k
        = unat (pkt_addr (cmd5_between rb lo (Suc hi) ! k))"
      by simp
    moreover from k have "map (\<lambda>k. 2 * k) [0..<16] ! k = 2 * k"
      by (simp del: upt_Suc)
    ultimately have u: "unat (pkt_addr (cmd5_between rb lo (Suc hi) ! k)) = 2 * k"
      using addrs by simp
    have "(pkt_addr (cmd5_between rb lo (Suc hi) ! k) \<le> 14) = (k < 8)"
      unfolding word_le_nat_alt u by auto
    then show ?thesis by (simp add: slot_value_def)
  qed
  from res have "process_data_buffer rb db = Inr (True, map slot_value (cmd5_between rb lo (Suc hi)))"
    by (simp add: process_data_buffer_def d)
  with l16 v show ?thesis by simp
qed

lemma less_3: "j < 3 \<Longrightarrow> j = 0 \<or> j = 1 \<or> j = (2::nat)"
  by arith

text \<open>
  C1 as stated fails: in \<open>stale_frame\<close> the slots 1 to 16 hold sixteen command-5
  words with the addresses 0 to 30 and no other command-5 word lies between
  them, but slot 0 holds one more command-5 word with address 0; the scan starts
  there, meets address 0 again where it expects 2, and returns false.
\<close>

theorem C1_counterexample:
  "length stale_frame = BUFFER_SIZE \<and> length zero_slots = 16 \<and>
   pkt_cmd (stale_frame ! 1) = 5 \<and> pkt_addr (stale_frame ! 1) = 0 \<and>
   pkt_cmd (stale_frame ! 16) = 5 \<and> pkt_addr (stale_frame ! 16) = 30 \<and>
   map (\<lambda>w. unat (pkt_addr w)) (cmd5_between stale_frame 1 17)
     = [0, 2, 4, 6, 8, 10, 12, 14, 16, 18, 20, 22, 24, 26, 28, 30] \<and>
   length (cmd5_between stale_frame 1 17) = 16 \<and>
   process_data_buffer stale_frame zero_slots = Inr (False, zero_slots)"
proof -
  have "process_data_buffer stale_frame zero_slots = Inr (False, zero_slots)"
    by code_simp
  moreover have "map (\<lambda>w. unat (pkt_addr w)) (cmd5_between stale_frame 1 17)
     = [0, 2, 4, 6, 8, 10, 12, 14, 16, 18, 20, 22, 24, 26, 28, 30]"
    "length (cmd5_between stale_frame 1 17) = 16"
    by (simp_all add: cmd5_between_def stale_frame_def pkt_cmd_def pkt_addr_def)
  moreover have "pkt_cmd (stale_frame ! 1) = 5" "pkt_addr (stale_frame ! 1) = 0"
    "pkt_cmd (stale_frame ! 16) = 5" "pkt_addr (stale_frame ! 16) = 30"
    by (simp_all add: stale_frame_def pkt_cmd_def pkt_addr_def)
  ultimately show ?thesis
    by (simp add: stale_frame_def zero_slots_def BUFFER_SIZE_def)
qed

lemma evens_16:
  "map (\<lambda>k. 2 * k) [0..<16] = [0, 2, 4, 6, 8, 10, 12, 14, 16, 18, 20, 22, 24, 26, 28, 30 :: nat]"
  by (simp add: upt_rec)

text \<open>
  The amended C1 at \<open>wrapped_frame\<close>: the end of an older transmission, a word of
  another command, then the full sequence in slots 3 to 19 with an empty word
  in between.
\<close>

theorem C1_full_sequence_witness:
  "length wrapped_frame = BUFFER_SIZE \<and> length zero_slots = 16 \<and>
   (3 :: nat) \<le> 19 \<and> 19 < BUFFER_SIZE \<and> pkt_cmd (wrapped_frame ! 19) = 5 \<and>
   map (\<lambda>w. unat (pkt_addr w)) (cmd5_between wrapped_frame 3 (Suc 19)) = map (\<lambda>k. 2 * k) [0..<16] \<and>
   \<not> (pkt_cmd (wrapped_frame ! 0) = 5 \<and> pkt_addr (wrapped_frame ! 0) = 0) \<and>
   \<not> (pkt_cmd (wrapped_frame ! 1) = 5 \<and> pkt_addr (wrapped_frame ! 1) = 0) \<and>
   \<not> (pkt_cmd (wrapped_frame ! 2) = 5 \<and> pkt_addr (wrapped_frame ! 2) = 0) \<and>
   (\<exists>d. process_data_buffer wrapped_frame zero_slots = Inr (True, d) \<and> length d = 16 \<and>
      (\<forall>k<16. d ! k = (cmd5_between wrapped_frame 3 (Suc 19) ! k) AND (if k < 8 then 0x77 else 0xFF)))"
proof -
  have h1: "length wrapped_frame = BUFFER_SIZE"
    by (simp add: wrapped_frame_def BUFFER_SIZE_def)
  have h2: "length zero_slots = 16" by (simp add: zero_slots_def)
  have h3: "(3 :: nat) \<le> 19" by simp
  have h4: "19 < BUFFER_SIZE" by (simp add: BUFFER_SIZE_def)
  have h5: "pkt_cmd (wrapped_frame ! 19) = 5"
    by (simp add: wrapped_frame_def pkt_cmd_def)
  have h6: "map (\<lambda>w. unat (pkt_addr w)) (cmd5_between wrapped_frame 3 (Suc 19)) = map (\<lambda>k. 2 * k) [0..<16]"
    unfolding evens_16
    by (simp add: cmd5_between_def wrapped_frame_def pkt_cmd_def pkt_addr_def)
  have u: "\<not> (pkt_cmd (wrapped_frame ! 0) = 5 \<and> pkt_addr (wrapped_frame ! 0) = 0)"
    "\<not> (pkt_cmd (wrapped_frame ! 1) = 5 \<and> pkt_addr (wrapped_frame ! 1) = 0)"
    "\<not> (pkt_cmd (wrapped_frame ! 2) = 5 \<and> pkt_addr (wrapped_frame ! 2) = 0)"
    by (simp_all add: wrapped_frame_def pkt_cmd_def pkt_addr_def)
  then have h7: "\<forall>j<3. \<not> (pkt_cmd (wrapped_frame ! j) = 5 \<and> pkt_addr (wrapped_frame ! j) = 0)"
    by (auto dest!: less_3)
  from C1_full_sequence [OF h1 h2 h3 h4 h5 h6 h7] h1 h2 h3 h4 h5 h6 u
  show ?thesis by blast
qed

lemma cmd5_between_first:
  assumes "lo < hi" and "hi \<le> length rb" and "pkt_cmd (rb ! lo) = 5"
  shows "cmd5_between rb lo hi \<noteq> []"
proof -
  from assms(1,2) have "drop lo rb = rb ! lo # drop (Suc lo) rb"
    by (simp add: Cons_nth_drop_Suc)
  moreover from assms(1) obtain d where "hi - lo = Suc d"
    by (cases "hi - lo") simp_all
  ultimately show ?thesis using assms(3) by (simp add: cmd5_between_def)
qed

text \<open>
  C6 (as amended).  Let slot \<open>lo\<close> hold the first command-5 word with address 0, let the
  command-5 words in the slots \<open>lo\<close> to \<open>m - 1\<close> carry the addresses
  0, 2, ..., \<open>2 * (c - 1)\<close> in this order (they are accepted, and with
  \<open>c \<le> 15\<close> the scan is still running), and let slot \<open>m\<close> hold a command-5 word
  whose address is not the expected \<open>2 * c\<close>.  Then the scan leaves the loop at
  index \<open>m\<close> and \<open>process_data_buffer\<close> returns false; no later slot is looked
  at: every ring that agrees on the slots 0 to \<open>m\<close> gives the same outcome.
\<close>

theorem C6_mismatch_aborts:
  assumes len: "length rb = BUFFER_SIZE" and ldb: "length db = 16"
    and lm: "lo < m" and mb: "m < BUFFER_SIZE"
    and idle: "\<forall>j<lo. \<not> (pkt_cmd (rb ! j) = 5 \<and> pkt_addr (rb ! j) = 0)"
    and cs: "pkt_cmd (rb ! lo) = 5"
    and addrs: "map (\<lambda>w. unat (pkt_addr w)) (cmd5_between rb lo m) = map (\<lambda>k. 2 * k) [0..<c]"
    and c: "c \<le> 15"
    and cm: "pkt_cmd (rb ! m) = 5"
    and mis: "unat (pkt_addr (rb ! m)) \<noteq> 2 * c"
  shows "\<exists>st. process_scan rb db = Inr (m, st) \<and> \<not> success st \<and>
           process_data_buffer rb db = Inr (False, data_buffer st) \<and>
           (\<forall>rb'. length rb' = BUFFER_SIZE \<and> (\<forall>j\<le>m. rb' ! j = rb ! j) \<longrightarrow>
                   process_scan rb' db = Inr (m, st))"
proof -
  let ?ws = "cmd5_between rb lo m" and ?w = "rb ! m"
  let ?s0 = "scan_init db"
  let ?sc = "foldl accept ?s0 ?ws"
  let ?st = "?sc\<lparr>success := False\<rparr>"
  from mb len have ml: "m < length rb" by simp
  from lm mb have lo: "lo \<le> m" and hi: "m \<le> BUFFER_SIZE" by simp_all
  from addrs have lc: "length ?ws = c"
    by (auto dest: arg_cong [where f = length])
  from lm ml cs have ne: "?ws \<noteq> []"
    by (intro cmd5_between_first) simp_all
  from scan_accepts [OF len ldb lo hi idle addrs c]
  have ps: "process_scan rb db = scan_list (drop m rb) m ?sc" .
  have fc: "data_start ?sc" "unat (expected_addr ?sc) = 2 * c"
    using foldl_accept [OF scan_init_facts(2,3), of ?ws db] lc c ldb ne
    by (auto simp: scan_init_facts)
  from mis fc(2) have "pkt_addr ?w \<noteq> expected_addr ?sc"
    by auto
  from body_mismatch [OF cm fc(1) this]
  have b: "loop_body ?w ?sc = Inr (Brk, ?st)" .
  have dr: "drop m rb = ?w # drop (Suc m) rb"
    using ml by (simp add: Cons_nth_drop_Suc)
  from ps b have res: "process_scan rb db = Inr (m, ?st)"
    by (simp add: dr)
  have pre: "process_scan rb' db = Inr (m, ?st)"
    if "length rb' = BUFFER_SIZE \<and> (\<forall>j\<le>m. rb' ! j = rb ! j)" for rb'
  proof -
    from mb have "last_examined m = m" by (simp add: last_examined_def)
    with that have "\<forall>j. 0 \<le> j \<and> j \<le> last_examined m \<longrightarrow> rb' ! j = rb ! j" by simp
    from scan_from_prefix [OF res [unfolded process_scan_def] len _ this] that
    show ?thesis by (simp add: process_scan_def)
  qed
  from res have "process_data_buffer rb db = Inr (False, data_buffer ?st)"
    by (simp add: process_data_buffer_def)
  with res pre show ?thesis
    by (intro exI [of _ ?st]) simp
qed

text \<open>
  C6 as stated fails when the mismatch comes after the address-30 word: in
  \<open>next_frame\<close> the slots 0 to 15 hold a full sequence and slot 16 holds a
  command-5 word with address 6, which differs from the expected address 32
  after sixteen accepted words; the scan has already stopped at slot 15 and
  \<open>process_data_buffer\<close> returns true.
\<close>

theorem C6_counterexample:
  "length next_frame = BUFFER_SIZE \<and> length zero_slots = 16 \<and>
   pkt_cmd (next_frame ! 0) = 5 \<and> pkt_addr (next_frame ! 0) = 0 \<and>
   map (\<lambda>w. unat (pkt_addr w)) (cmd5_between next_frame 0 16)
     = [0, 2, 4, 6, 8, 10, 12, 14, 16, 18, 20, 22, 24, 26, 28, 30] \<and>
   pkt_cmd (next_frame ! 16) = 5 \<and> unat (pkt_addr (next_frame ! 16)) = 6 \<and>
   (6 :: nat) \<noteq> 2 * 16 \<and>
   process_scan next_frame zero_slots = Inr (15, capture_state) \<and>
   process_data_buffer next_frame zero_slots = Inr (True, capture_slots)"
proof -
  have "process_scan next_frame zero_slots = Inr (15, capture_state)"
    "process_data_buffer next_frame zero_slots = Inr (True, capture_slots)"
    by code_simp+
  moreover have "map (\<lambda>w. unat (pkt_addr w)) (cmd5_between next_frame 0 16)
     = [0, 2, 4, 6, 8, 10, 12, 14, 16, 18, 20, 22, 24, 26, 28, 30]"
    by (simp add: cmd5_between_def next_frame_def capture_frame_def pkt_cmd_def pkt_addr_def)
  moreover have "pkt_cmd (next_frame ! 0) = 5" "pkt_addr (next_frame ! 0) = 0"
    "pkt_cmd (next_frame ! 16) = 5" "unat (pkt_addr (next_frame ! 16)) = 6"
    by (simp_all add: next_frame_def capture_frame_def pkt_cmd_def pkt_addr_def)
  ultimately show ?thesis
    by (simp add: next_frame_def capture_frame_def zero_slots_def BUFFER_SIZE_def)
qed

lemma process_skip_frame: "process_scan skip_frame zero_slots = Inr (3, skip_state)"
  by code_simp

text \<open>C6 at \<open>skip_frame\<close>, whose command-5 words carry the addresses 0, 2, 6.\<close>

theorem C6_mismatch_aborts_witness:
  "length skip_frame = BUFFER_SIZE \<and> length zero_slots = 16 \<and> (1 :: nat) < 3 \<and>
   3 < BUFFER_SIZE \<and>
   \<not> (pkt_cmd (skip_frame ! 0) = 5 \<and> pkt_addr (skip_frame ! 0) = 0) \<and>
   pkt_cmd (skip_frame ! 1) = 5 \<and>
   map (\<lambda>w. unat (pkt_addr w)) (cmd5_between skip_frame 1 3) = map (\<lambda>k. 2 * k) [0..<2] \<and>
   (2 :: nat) \<le> 15 \<and> pkt_cmd (skip_frame ! 3) = 5 \<and>
   unat (pkt_addr (skip_frame ! 3)) \<noteq> 2 * 2 \<and>
   process_scan skip_frame zero_slots = Inr (3, skip_state) \<and> \<not> success skip_state \<and>
   process_data_buffer skip_frame zero_slots = Inr (False, data_buffer skip_state) \<and>
   length (skip_frame[4 := 0x14800]) = BUFFER_SIZE \<and>
   take 4 (skip_frame[4 := 0x14800]) = take 4 skip_frame \<and>
   process_scan (skip_frame[4 := 0x14800]) zero_slots = Inr (3, skip_state)"
proof -
  have h1: "length skip_frame = BUFFER_SIZE"
    by (simp add: skip_frame_def BUFFER_SIZE_def)
  have h2: "length zero_slots = 16" by (simp add: zero_slots_def)
  have h3: "(1 :: nat) < 3" by simp
  have h4: "3 < BUFFER_SIZE" by (simp add: BUFFER_SIZE_def)
  have u: "\<not> (pkt_cmd (skip_frame ! 0) = 5 \<and> pkt_addr (skip_frame ! 0) = 0)"
    by (simp add: skip_frame_def pkt_cmd_def pkt_addr_def)
  then have h5: "\<forall>j<1. \<not> (pkt_cmd (skip_frame ! j) = 5 \<and> pkt_addr (skip_frame ! j) = 0)"
    by simp
  have h6: "pkt_cmd (skip_frame ! 1) = 5"
    by (simp add: skip_frame_def pkt_cmd_def)
  have h7: "map (\<lambda>w. unat (pkt_addr w)) (cmd5_between skip_frame 1 3) = map (\<lambda>k. 2 * k) [0..<2]"
    by (simp add: cmd5_between_def skip_frame_def pkt_cmd_def pkt_addr_def upt_rec)
  have h8: "(2 :: nat) \<le> 15" by simp
  have h9: "pkt_cmd (skip_frame ! 3) = 5"
    by (simp add: skip_frame_def pkt_cmd_def)
  have h10: "unat (pkt_addr (skip_frame ! 3)) \<noteq> 2 * 2"
    by (simp add: skip_frame_def pkt_addr_def)
  from C6_mismatch_aborts [OF h1 h2 h3 h4 h5 h6 h7 h8 h9 h10]
  obtain st where r: "process_scan skip_frame zero_slots = Inr (3, st)" "\<not> success st"
    "process_data_buffer skip_frame zero_slots = Inr (False, data_buffer st)"
    "\<forall>rb'. length rb' = BUFFER_SIZE \<and> (\<forall>j\<le>3. rb' ! j = skip_frame ! j) \<longrightarrow>
           process_scan rb' zero_slots = Inr (3, st)"
    by blast
  from r(1) have st: "st = skip_state" by (simp add: process_skip_frame)
  have l: "length (skip_frame[4 := 0x14800]) = BUFFER_SIZE" using h1 by simp
  have k: "take 4 (skip_frame[4 := 0x14800]) = take 4 skip_frame" by simp
  have "\<forall>j\<le>3. skip_frame[4 := 0x14800] ! j = skip_frame ! j" by simp
  with r(4) l have "process_scan (skip_frame[4 := 0x14800]) zero_slots = Inr (3, st)"
    by blast
  with r(1-3) st l k h1 h2 h3 h4 u h6 h7 h8 h9 h10 show ?thesis by simp
qed

text \<open>
  C5 at \<open>tail_frame\<close>, which holds command-5 words with the addresses 16 to 30
  only.
\<close>

theorem C5_no_start_word_witness:
  "length tail_frame = BUFFER_SIZE \<and>
   list_all (\<lambda>w. \<not> (pkt_cmd w = 5 \<and> pkt_addr w = 0)) tail_frame \<and>
   pkt_cmd (tail_frame ! 0) = 5 \<and>
   process_data_buffer tail_frame capture_slots = Inr (False, capture_slots) \<and>
   get_voltage tail_frame capture_slots = Inr (- 1, capture_slots) \<and>
   get_current tail_frame capture_slots = Inr (- 1, capture_slots) \<and>
   get_power tail_frame capture_slots = Inr (- 1, capture_slots) \<and>
   get_energy tail_frame capture_slots = Inr (- 1, capture_slots)"
proof -
  have h1: "length tail_frame = BUFFER_SIZE"
    by (simp add: tail_frame_def BUFFER_SIZE_def)
  have u: "list_all (\<lambda>w. \<not> (pkt_cmd w = 5 \<and> pkt_addr w = 0)) tail_frame"
    by (simp add: tail_frame_def pkt_cmd_def pkt_addr_def)
  then have a: "\<forall>w \<in> set tail_frame. \<not> (pkt_cmd w = 5 \<and> pkt_addr w = 0)"
    by (simp add: list_all_iff)
  have h2: "\<forall>j<BUFFER_SIZE. \<not> (pkt_cmd (tail_frame ! j) = 5 \<and> pkt_addr (tail_frame ! j) = 0)"
  proof (intro allI impI)
    fix j assume "j < BUFFER_SIZE"
    with h1 have "tail_frame ! j \<in> set tail_frame" by simp
    with a show "\<not> (pkt_cmd (tail_frame ! j) = 5 \<and> pkt_addr (tail_frame ! j) = 0)" by blast
  qed
  have h3: "pkt_cmd (tail_frame ! 0) = 5"
    by (simp add: tail_frame_def pkt_cmd_def)
  from C5_no_start_word [OF h1 h2, of capture_slots] h1 u h3 show ?thesis by blast
qed

text \<open>
  C9 at \<open>capture_frame\<close>, whose scan stops at slot 15, and the same ring with a
  command-5 word of address 0 written to slot 20.
\<close>

theorem C9_scan_prefix_witness:
  "length capture_frame = BUFFER_SIZE \<and> length (capture_frame[20 := 0x14000]) = BUFFER_SIZE \<and>
   process_scan capture_frame zero_slots = Inr (15, capture_state) \<and>
   last_examined 15 = 15 \<and>
   take 16 (capture_frame[20 := 0x14000]) = take 16 capture_frame \<and>
   capture_frame[20 := 0x14000] \<noteq> capture_frame \<and>
   process_scan (capture_frame[20 := 0x14000]) zero_slots = Inr (15, capture_state) \<and>
   process_data_buffer (capture_frame[20 := 0x14000]) zero_slots
     = Inr (success capture_state, data_buffer capture_state) \<and>
   process_data_buffer capture_frame zero_slots
     = Inr (success capture_state, data_buffer capture_state)"
proof -
  have h1: "length capture_frame = BUFFER_SIZE"
    by (simp add: capture_frame_def BUFFER_SIZE_def)
  then have h2: "length (capture_frame[20 := 0x14000]) = BUFFER_SIZE" by simp
  have h3: "process_scan capture_frame zero_slots = Inr (15, capture_state)"
    unfolding capture_state_def by (rule process_capture_frame)
  have h4: "\<forall>j \<le> last_examined 15. capture_frame[20 := 0x14000] ! j = capture_frame ! j"
    by (simp add: last_examined_def BUFFER_SIZE_def)
  have h5: "capture_frame[20 := 0x14000] \<noteq> capture_frame"
    by (simp add: capture_frame_def)
  have h6: "last_examined 15 = 15" "take 16 (capture_frame[20 := 0x14000]) = take 16 capture_frame"
    by (simp_all add: last_examined_def BUFFER_SIZE_def)
  from C9_scan_prefix [OF h1 h2 h3 h4] h1 h2 h3 h5 h6 show ?thesis by blast
qed

section \<open>Bit sampler: the captured word\<close>

lemma clock_edges_run:
  assumes "clk_attached s" and "unat (read_digit s) = p" and "p + length bs \<le> 17"
    and "unat (buffer_idx s) < length (read_buffer s)"
  shows "clock_edges bs s =
     Inr (s\<lparr>read_buffer := (read_buffer s)[unat (buffer_idx s) :=
                 (read_buffer s ! unat (buffer_idx s)) OR or_shifted_from p bs],
            read_digit := read_digit s + of_nat (length bs)\<rparr>)"
  using assms
proof (induction bs arbitrary: s p)
  case Nil
  then show ?case by simp
next
  case (Cons b bs)
  let ?i = "unat (buffer_idx s)"
  let ?s = "s\<lparr>read_buffer := (read_buffer s)[?i :=
                 (read_buffer s ! ?i) OR push_bit (16 - p) (of_bool b)],
              read_digit := read_digit s + 1\<rparr>"
  from Cons.prems(3) have p16: "p \<le> 16" by simp
  with Cons.prems have st: "clock_rising b s = Inr ?s"
    by (simp add: clock_rising_def clock_isr_def)
  have q1: "clk_attached ?s" using Cons.prems(1) by simp
  have q2: "unat (read_digit ?s) = Suc p"
    using p16 Cons.prems(2) by (simp add: unat_word_ariths)
  have q3: "Suc p + length bs \<le> 17" using Cons.prems(3) by simp
  have q4: "unat (buffer_idx ?s) < length (read_buffer ?s)" using Cons.prems(4) by simp
  from Cons.IH [OF q1 q2 q3 q4] st Cons.prems(4) show ?case
    by (simp add: or.assoc add.assoc)
qed

lemma bit_or_shifted_from:
  "p + length bs \<le> 17 \<Longrightarrow>
     bit (or_shifted_from p bs) k \<longleftrightarrow> (\<exists>i<length bs. k = 16 - (p + i) \<and> bs ! i)"
proof (induction bs arbitrary: p)
  case Nil
  then show ?case by simp
next
  case (Cons b bs)
  from Cons.prems have "Suc p + length bs \<le> 17" by simp
  note ih = Cons.IH [OF this]
  have "bit (push_bit (16 - p) (of_bool b :: u32)) k \<longleftrightarrow> b \<and> k = 16 - p"
    by (auto simp: bit_push_bit_iff bit_of_bool_iff)
  then have "bit (or_shifted_from p (b # bs)) k \<longleftrightarrow>
      (b \<and> k = 16 - p) \<or> (\<exists>i<length bs. k = 16 - (Suc p + i) \<and> bs ! i)"
    by (simp add: bit_or_iff ih)
  also have "\<dots> \<longleftrightarrow> (\<exists>i<length (b # bs). k = 16 - (p + i) \<and> (b # bs) ! i)"
    by (auto simp: less_Suc_eq_0_disj)
  finally show ?case .
qed

lemma bit_or_shifted:
  assumes "length bs \<le> 17"
  shows "bit (or_shifted bs) k \<longleftrightarrow> k \<le> 16 \<and> 16 - k < length bs \<and> bs ! (16 - k)"
proof -
  from assms have "bit (or_shifted bs) k \<longleftrightarrow> (\<exists>i<length bs. k = 16 - i \<and> bs ! i)"
    by (simp add: or_shifted_def bit_or_shifted_from)
  also have "\<dots> \<longleftrightarrow> k \<le> 16 \<and> 16 - k < length bs \<and> bs ! (16 - k)"
  proof
    assume "\<exists>i<length bs. k = 16 - i \<and> bs ! i"
    then obtain i where i: "i < length bs" "k = 16 - i" "bs ! i" by blast
    with assms have "16 - k = i" by simp
    with i show "k \<le> 16 \<and> 16 - k < length bs \<and> bs ! (16 - k)" by simp
  next
    assume "k \<le> 16 \<and> 16 - k < length bs \<and> bs ! (16 - k)"
    then show "\<exists>i<length bs. k = 16 - i \<and> bs ! i"
      by (intro exI [of _ "16 - k"]) simp
  qed
  finally show ?thesis .
qed

text \<open>
  C2 (as amended).  In one chip-select-low interval with \<open>n \<le> 17\<close> rising clock
  edges carrying the levels \<open>bs\<close>, the word at the ring cursor becomes the OR of
  each level shifted left by 16 minus its position; the position starts at 0
  and is \<open>n\<close> after the edges; bit \<open>k\<close> of the word is the level of edge
  \<open>16 - k\<close> if that edge occurred and is clear otherwise.  So bit 16 holds the
  first level, and after a full 17 edges bit 0 holds the seventeenth level.
\<close>

theorem C2_sampler_word:
  assumes "unat (buffer_idx s) < length (read_buffer s)" and "length bs \<le> 17"
  shows "\<exists>s'. cs_low_interval bs s = Inr s' \<and>
           read_buffer s' = (read_buffer s)[unat (buffer_idx s) := or_shifted bs] \<and>
           unat (read_digit s') = length bs \<and> buffer_idx s' = buffer_idx s \<and>
           (\<forall>k. bit (read_buffer s' ! unat (buffer_idx s)) k \<longleftrightarrow>
                  k \<le> 16 \<and> 16 - k < length bs \<and> bs ! (16 - k)) \<and>
           (bs \<noteq> [] \<longrightarrow> bit (read_buffer s' ! unat (buffer_idx s)) 16 = bs ! 0) \<and>
           (length bs = 17 \<longrightarrow> bit (read_buffer s' ! unat (buffer_idx s)) 0 = bs ! 16)"
proof -
  let ?i = "unat (buffer_idx s)"
  let ?s0 = "s\<lparr>read_digit := 0, read_buffer := (read_buffer s)[?i := 0], clk_attached := True\<rparr>"
  let ?s' = "?s0\<lparr>read_buffer := (read_buffer ?s0)[unat (buffer_idx ?s0) :=
                 (read_buffer ?s0 ! unat (buffer_idx ?s0)) OR or_shifted_from 0 bs],
               read_digit := read_digit ?s0 + of_nat (length bs)\<rparr>"
  from assms(1) have sel: "select_isr False s = Inr ?s0"
    by (simp add: select_isr_def)
  have "clock_edges bs ?s0 = Inr ?s'"
    using assms by (intro clock_edges_run) simp_all
  with sel have r: "cs_low_interval bs s = Inr ?s'"
    by (simp add: cs_low_interval_def)
  have rb: "read_buffer ?s' = (read_buffer s)[?i := or_shifted bs]"
    using assms(1) by (simp add: or_shifted_def)
  have rd: "unat (read_digit ?s') = length bs"
    using assms(2) by (simp add: unat_of_nat)
  have w: "read_buffer ?s' ! ?i = or_shifted bs"
    using assms(1) by (simp add: or_shifted_def)
  have bi: "buffer_idx ?s' = buffer_idx s" by simp
  from r rb rd bi w obtain s' where s':
    "cs_low_interval bs s = Inr s'"
    "read_buffer s' = (read_buffer s)[?i := or_shifted bs]"
    "unat (read_digit s') = length bs" "buffer_idx s' = buffer_idx s"
    "read_buffer s' ! ?i = or_shifted bs"
    by blast
  note b = bit_or_shifted [OF assms(2)]
  have c1: "\<forall>k. bit (read_buffer s' ! ?i) k \<longleftrightarrow>
                  k \<le> 16 \<and> 16 - k < length bs \<and> bs ! (16 - k)"
    unfolding s'(5) using b by blast
  have c2: "bs \<noteq> [] \<longrightarrow> bit (read_buffer s' ! ?i) 16 = bs ! 0"
    unfolding s'(5) by (simp add: b)
  have c3: "length bs = 17 \<longrightarrow> bit (read_buffer s' ! ?i) 0 = bs ! 16"
    unfolding s'(5) by (simp add: b)
  from s'(1-4) c1 c2 c3 show ?thesis by blast
qed

text \<open>
  C2 as stated fails: with sixteen low levels the word is 0, and the seventeenth
  edge with a high level writes bit 0, giving the word 1.
\<close>

theorem C2_counterexample:
  "cs_low_interval (replicate 16 False @ [True]) idle_sampler =
     Inr (idle_sampler\<lparr>read_buffer := (read_buffer idle_sampler)[0 := 1],
                       read_digit := 17, clk_attached := True\<rparr>) \<and>
   cs_low_interval (replicate 16 False) idle_sampler =
     Inr (idle_sampler\<lparr>read_buffer := (read_buffer idle_sampler)[0 := 0],
                       read_digit := 16, clk_attached := True\<rparr>) \<and>
   bit (1 :: u32) 0"
  by code_simp

text \<open>The amended C2 at the seventeen bits of the packet 0x14075.\<close>

theorem C2_sampler_word_witness:
  "unat (buffer_idx idle_sampler) < length (read_buffer idle_sampler) \<and>
   length packet_bits \<le> 17 \<and> packet_bits \<noteq> [] \<and> length packet_bits = 17 \<and>
   or_shifted packet_bits = 0x14075 \<and>
   (\<exists>s'. cs_low_interval packet_bits idle_sampler = Inr s' \<and>
           read_buffer s' = (read_buffer idle_sampler)[unat (buffer_idx idle_sampler) := or_shifted packet_bits] \<and>
           unat (read_digit s') = length packet_bits \<and> buffer_idx s' = buffer_idx idle_sampler \<and>
           (\<forall>k. bit (read_buffer s' ! unat (buffer_idx idle_sampler)) k \<longleftrightarrow>
                  k \<le> 16 \<and> 16 - k < length packet_bits \<and> packet_bits ! (16 - k)) \<and>
           bit (read_buffer s' ! unat (buffer_idx idle_sampler)) 16 = packet_bits ! 0 \<and>
           bit (read_buffer s' ! unat (buffer_idx idle_sampler)) 0 = packet_bits ! 16)"
proof -
  have h1: "unat (buffer_idx idle_sampler) < length (read_buffer idle_sampler)"
    by (simp add: idle_sampler_def)
  have h2: "length packet_bits \<le> 17" by (simp add: packet_bits_def)
  have h3: "packet_bits \<noteq> []" "length packet_bits = 17" by (simp_all add: packet_bits_def)
  have h4: "or_shifted packet_bits = 0x14075"
    by (simp add: or_shifted_def packet_bits_def)
  from C2_sampler_word [OF h1 h2] h1 h2 h3 h4 show ?thesis by blast
qed

end
